theory Spec2Isabelle
  imports Complex_Main
begin

section \<open>Python strings\<close>

text \<open>
  A Python \<open>str\<close> is a sequence of code points. The model is a \<open>char list\<close> whose
  characters are the code points below 256, so \<open>length\<close> counts what \<open>len\<close> counts.
  \<open>isspace\<close> and \<open>lower_char\<close> agree with \<open>str.isspace\<close> and \<open>str.lower\<close> on that
  range.
\<close>

definition isspace :: "char \<Rightarrow> bool" where
  "isspace c = (of_char c \<in> {9::nat, 10, 11, 12, 13, 28, 29, 30, 31, 32, 133, 160})"

definition lower_char :: "char \<Rightarrow> char" where
  "lower_char c =
     (let n = (of_char c :: nat)
      in if (65 \<le> n \<and> n \<le> 90) \<or> (192 \<le> n \<and> n \<le> 222 \<and> n \<noteq> 215)
         then char_of (n + 32) else c)"

definition lower :: "string \<Rightarrow> string" where
  "lower s = map lower_char s"

text \<open>\<open>startswith\<close> and the substring test \<open>sub in s\<close>.\<close>

fun startswith :: "string \<Rightarrow> string \<Rightarrow> bool" where
  "startswith s [] = True"
| "startswith [] (p # ps) = False"
| "startswith (c # cs) (p # ps) = (c = p \<and> startswith cs ps)"

fun py_in :: "string \<Rightarrow> string \<Rightarrow> bool" where
  "py_in sub [] = (sub = [])"
| "py_in sub (c # cs) = (startswith (c # cs) sub \<or> py_in sub cs)"

text \<open>\<open>str.split()\<close> without arguments: the maximal runs of non-whitespace.\<close>

function split :: "string \<Rightarrow> string list" where
  "split s =
     (let s' = dropWhile isspace s
      in if s' = [] then []
         else takeWhile (\<lambda>c. \<not> isspace c) s' # split (dropWhile (\<lambda>c. \<not> isspace c) s'))"
  by pat_completeness auto
termination
proof (relation "measure length")
  show "wf (measure length)" by simp
next
  fix s s' :: string
  assume a: "s' = dropWhile isspace s" and b: "s' \<noteq> []"
  from b obtain c cs where s': "s' = c # cs"
    by (cases s') auto
  have "\<not> isspace c"
    using a s' by (metis hd_dropWhile list.sel(1) list.distinct(1))
  then have "dropWhile (\<lambda>c. \<not> isspace c) s' = dropWhile (\<lambda>c. \<not> isspace c) cs"
    using s' by simp
  then have "length (dropWhile (\<lambda>c. \<not> isspace c) s') \<le> length cs"
    by (simp add: length_dropWhile_le)
  moreover have "length s' \<le> length s"
    using a by (simp add: length_dropWhile_le)
  ultimately show "(dropWhile (\<lambda>c. \<not> isspace c) s', s) \<in> measure length"
    using s' by simp
qed

declare split.simps [simp del]

text \<open>\<open>sep.join(xs)\<close>.\<close>

fun join :: "string \<Rightarrow> string list \<Rightarrow> string" where
  "join sep [] = []"
| "join sep [x] = x"
| "join sep (x # y # ys) = x @ sep @ join sep (y # ys)"

text \<open>\<open>str.strip()\<close> without arguments.\<close>

definition strip :: "string \<Rightarrow> string" where
  "strip s = rev (dropWhile isspace (rev (dropWhile isspace s)))"

section \<open>utils.chunk_text\<close>

text \<open>
  The loop of \<open>chunk_text\<close> over the words, on the triple
  \<open>(chunks, current_chunk, current_len)\<close>.
\<close>

fun chunk_loop ::
  "int \<Rightarrow> string list \<Rightarrow> string list \<times> string list \<times> int \<Rightarrow> string list \<times> string list \<times> int"
where
  "chunk_loop max_chars [] st = st"
| "chunk_loop max_chars (word # ws) (chunks, current_chunk, current_len) =
     (if current_len + int (length word) + 1 > max_chars
      then chunk_loop max_chars ws
             (chunks @ [join '' '' current_chunk], [word], int (length word))
      else chunk_loop max_chars ws
             (chunks, current_chunk @ [word], current_len + int (length word) + 1))"

definition chunk_text :: "string \<Rightarrow> int \<Rightarrow> string list" where
  "chunk_text text max_chars =
     (case chunk_loop max_chars (split text) ([], [], 0) of
        (chunks, current_chunk, current_len) \<Rightarrow>
          if current_chunk \<noteq> [] then chunks @ [join '' '' current_chunk] else chunks)"

section \<open>The whitespace steps of Voiceover._clean_text_for_speech\<close>

text \<open>\<open>re.sub(r'\s+', ' ', text)\<close>: every maximal run of whitespace becomes one space.\<close>

function sub_ws :: "string \<Rightarrow> string" where
  "sub_ws [] = []"
| "sub_ws (c # cs) =
     (if isspace c then CHR '' '' # sub_ws (dropWhile isspace cs) else c # sub_ws cs)"
  by pat_completeness auto
termination
  by (relation "measure length") (auto simp: length_dropWhile_le le_imp_less_Suc)

text \<open>
  \<open>re.sub(r'\n\s*\n', '\n', text)\<close>: at a newline followed by a whitespace run that
  holds another newline, the greedy \<open>\s*\<close> backtracks to the last newline of the run;
  the match, up to that newline, becomes one newline and the scan goes on behind it.
\<close>

definition newline :: char where
  "newline = CHR 0x0A"

function sub_blank_lines :: "string \<Rightarrow> string" where
  "sub_blank_lines [] = []"
| "sub_blank_lines (c # cs) =
     (if c = newline \<and> newline \<in> set (takeWhile isspace cs)
      then newline # sub_blank_lines
             (drop (length (dropWhile (\<lambda>d. d \<noteq> newline) (rev (takeWhile isspace cs)))) cs)
      else c # sub_blank_lines cs)"
  by pat_completeness auto
termination
  by (relation "measure length") auto

definition collapse_whitespace :: "string \<Rightarrow> string" where
  "collapse_whitespace text = strip (sub_blank_lines (sub_ws text))"

text \<open>
  \<open>_clean_text_for_speech\<close>: six regular-expression substitutions that remove markup
  (headers, visual cues, emphasis, pause markers, ellipses, URLs), here the parameter
  \<open>remove_markup\<close>, followed by the whitespace steps above.
\<close>

definition clean_text_for_speech :: "(string \<Rightarrow> string) \<Rightarrow> string \<Rightarrow> string" where
  "clean_text_for_speech remove_markup text = collapse_whitespace (remove_markup text)"

section \<open>Facts about splitting and joining\<close>

lemma split_Nil [simp]: "split [] = []"
  by (simp add: split.simps)

lemma split_space_Cons [simp]: "isspace c \<Longrightarrow> split (c # s) = split s"
  by (subst split.simps, subst (2) split.simps) simp

lemma split_spaces_append: "\<forall>c\<in>set ws. isspace c \<Longrightarrow> split (ws @ s) = split s"
  by (induction ws) auto

definition word :: "string \<Rightarrow> bool" where
  "word w = (w \<noteq> [] \<and> (\<forall>c\<in>set w. \<not> isspace c))"

lemma split_word_append:
  assumes "word w" and "r = [] \<or> isspace (hd r)"
  shows "split (w @ r) = w # split r"
proof -
  from assms(1) obtain c cs where w: "w = c # cs" and c: "\<not> isspace c"
    by (cases w) (auto simp: word_def)
  have ns: "\<And>x. x \<in> set w \<Longrightarrow> \<not> isspace x"
    using assms(1) by (simp add: word_def)
  have d: "dropWhile isspace (w @ r) = w @ r"
    using w c by simp
  have r: "takeWhile (\<lambda>c. \<not> isspace c) r = [] \<and> dropWhile (\<lambda>c. \<not> isspace c) r = r"
    using assms(2) by (cases r) auto
  have t: "takeWhile (\<lambda>c. \<not> isspace c) (w @ r) = w"
    using ns r by (simp add: takeWhile_append2)
  have e: "dropWhile (\<lambda>c. \<not> isspace c) (w @ r) = r"
    using ns r by (simp add: dropWhile_append2)
  show ?thesis
    by (subst split.simps) (simp only: d t e Let_def, simp add: w)
qed

lemma split_word [simp]: "word w \<Longrightarrow> split w = [w]"
  using split_word_append [of w "[]"] by simp

lemma split_words: "w \<in> set (split s) \<Longrightarrow> word w"
proof (induction s arbitrary: w rule: split.induct)
  case (1 s)
  define s' where "s' = dropWhile isspace s"
  show ?case
  proof (cases "s' = []")
    case True
    with 1(2) show ?thesis
      by (subst (asm) split.simps) (simp add: s'_def)
  next
    case False
    then obtain c cs where s': "s' = c # cs"
      by (cases s') auto
    have c: "\<not> isspace c"
      using s' s'_def by (metis hd_dropWhile list.sel(1) list.distinct(1))
    from 1(2) False have "w = takeWhile (\<lambda>c. \<not> isspace c) s'
        \<or> w \<in> set (split (dropWhile (\<lambda>c. \<not> isspace c) s'))"
      by (subst (asm) split.simps) (auto simp: s'_def Let_def split: if_splits)
    then show ?thesis
    proof
      assume "w = takeWhile (\<lambda>c. \<not> isspace c) s'"
      then show ?thesis
        using s' c by (auto simp: word_def dest: set_takeWhileD)
    next
      assume "w \<in> set (split (dropWhile (\<lambda>c. \<not> isspace c) s'))"
      then show ?thesis
        using 1(1) [OF s'_def False] by simp
    qed
  qed
qed

lemma isspace_space [simp]: "isspace CHR '' ''"
  by (simp add: isspace_def)

lemma split_append_sep:
  assumes c: "isspace c"
  shows "split (a @ c # b) = split a @ split b"
proof (induction a rule: split.induct)
  case (1 s)
  define ws where "ws = takeWhile isspace s"
  define s' where "s' = dropWhile isspace s"
  have s: "s = ws @ s'"
    by (simp add: ws_def s'_def)
  have wsp: "\<forall>c\<in>set ws. isspace c"
    by (auto simp: ws_def dest: set_takeWhileD)
  have l: "split (s @ c # b) = split (s' @ c # b)"
    using split_spaces_append [OF wsp, of "s' @ c # b"] s by simp
  have r: "split s = split s'"
    using split_spaces_append [OF wsp, of s'] s by simp
  show ?case
  proof (cases "s' = []")
    case True
    then show ?thesis
      using l r c by simp
  next
    case False
    define w where "w = takeWhile (\<lambda>c. \<not> isspace c) s'"
    define t where "t = dropWhile (\<lambda>c. \<not> isspace c) s'"
    have wt: "s' = w @ t"
      by (simp add: w_def t_def)
    from False obtain d ds where d: "s' = d # ds"
      by (cases s') auto
    have nd: "\<not> isspace d"
      using d s'_def by (metis hd_dropWhile list.sel(1) list.distinct(1))
    have ww: "word w"
      using d nd by (auto simp: word_def w_def dest: set_takeWhileD)
    have tt: "t = [] \<or> isspace (hd t)"
      using hd_dropWhile [of "\<lambda>c. \<not> isspace c" s'] by (auto simp: t_def)
    have tc: "t @ c # b = [] \<or> isspace (hd (t @ c # b))"
      using tt c by (cases t) auto
    have ih: "split (t @ c # b) = split t @ split b"
      using 1 [OF s'_def False] by (simp add: t_def)
    have "split (s' @ c # b) = split (w @ (t @ c # b))"
      using wt by simp
    also have "\<dots> = w # split (t @ c # b)"
      by (rule split_word_append [OF ww tc])
    also have "\<dots> = (w # split t) @ split b"
      using ih by simp
    also have "\<dots> = split (w @ t) @ split b"
      using split_word_append [OF ww tt] by simp
    finally show ?thesis
      using l r wt by simp
  qed
qed

lemma split_join: "\<forall>w\<in>set ws. word w \<Longrightarrow> split (join '' '' ws) = ws"
proof (induction ws rule: induct_list012)
  case (3 x y zs)
  have "split (x @ CHR '' '' # join '' '' (y # zs)) = x # split (CHR '' '' # join '' '' (y # zs))"
    using 3(3) by (intro split_word_append) auto
  then show ?case
    using 3 by simp
qed auto

lemma split_join_concat: "split (join '' '' xs) = concat (map split xs)"
proof (induction xs rule: induct_list012)
  case (3 x y zs)
  have "split (x @ CHR '' '' # join '' '' (y # zs)) = split x @ split (join '' '' (y # zs))"
    by (rule split_append_sep) simp
  then show ?case
    using 3 by simp
qed auto

lemma join_snoc:
  "join sep (xs @ [x]) = (if xs = [] then x else join sep xs @ sep @ x)"
  by (induction xs rule: induct_list012) auto

lemma join_eq_Nil: "\<forall>w\<in>set ws. w \<noteq> [] \<Longrightarrow> join sep ws = [] \<longleftrightarrow> ws = []"
  by (induction ws rule: induct_list012) auto

subsection \<open>The loop keeps the words and their order\<close>

lemma chunk_loop_words:
  assumes "\<forall>w\<in>set ws. word w" and "\<forall>w\<in>set cur. word w"
    and "chunk_loop m ws (chunks, cur, n) = (chunks', cur', n')"
  shows "(\<forall>w\<in>set cur'. word w)
    \<and> concat (map split chunks') @ cur' = concat (map split chunks) @ cur @ ws"
  using assms
proof (induction ws arbitrary: chunks cur n)
  case Nil
  then show ?case by simp
next
  case (Cons w ws)
  show ?case
  proof (cases "n + int (length w) + 1 > m")
    case True
    with Cons.prems(3)
    have run: "chunk_loop m ws (chunks @ [join '' '' cur], [w], int (length w)) = (chunks', cur', n')"
      by simp
    have "(\<forall>w\<in>set cur'. word w)
      \<and> concat (map split chunks') @ cur' = concat (map split (chunks @ [join '' '' cur])) @ [w] @ ws"
      using Cons.prems(1) by (intro Cons.IH [OF _ _ run]) auto
    then show ?thesis
      using Cons.prems(2) by (simp add: split_join)
  next
    case False
    with Cons.prems(3)
    have run: "chunk_loop m ws (chunks, cur @ [w], n + int (length w) + 1) = (chunks', cur', n')"
      by simp
    have "(\<forall>w\<in>set cur'. word w)
      \<and> concat (map split chunks') @ cur' = concat (map split chunks) @ (cur @ [w]) @ ws"
      using Cons.prems(1,2) by (intro Cons.IH [OF _ _ run]) auto
    then show ?thesis
      by simp
  qed
qed

lemma chunk_text_words: "concat (map split (chunk_text text m)) = split text"
proof -
  obtain chunks cur n where run: "chunk_loop m (split text) ([], [], 0) = (chunks, cur, n)"
    by (cases "chunk_loop m (split text) ([], [], 0)") auto
  have "(\<forall>w\<in>set cur. word w) \<and> concat (map split chunks) @ cur = concat (map split []) @ [] @ split text"
    by (rule chunk_loop_words [OF _ _ run]) (auto dest: split_words)
  then show ?thesis
    by (auto simp: chunk_text_def run split_join)
qed

subsection \<open>The loop keeps every chunk within the budget\<close>

lemma length_join_snoc:
  "length (join '' '' (cur @ [w])) \<le> length (join '' '' cur) + 1 + length w"
  by (simp add: join_snoc)

lemma chunk_loop_bound:
  assumes "\<forall>w\<in>set ws. int (length w) \<le> m" and "\<forall>c\<in>set chunks. int (length c) \<le> m"
    and "int (length (join '' '' cur)) \<le> n" and "n \<le> m"
    and "chunk_loop m ws (chunks, cur, n) = (chunks', cur', n')"
  shows "(\<forall>c\<in>set chunks'. int (length c) \<le> m) \<and> int (length (join '' '' cur')) \<le> m"
  using assms
proof (induction ws arbitrary: chunks cur n)
  case Nil
  then show ?case by simp
next
  case (Cons w ws)
  show ?case
  proof (cases "n + int (length w) + 1 > m")
    case True
    with Cons.prems(5)
    have run: "chunk_loop m ws (chunks @ [join '' '' cur], [w], int (length w)) = (chunks', cur', n')"
      by simp
    show ?thesis
      using Cons.prems(1-4) by (intro Cons.IH [OF _ _ _ _ run]) auto
  next
    case False
    with Cons.prems(5)
    have run: "chunk_loop m ws (chunks, cur @ [w], n + int (length w) + 1) = (chunks', cur', n')"
      by simp
    have "int (length (join '' '' (cur @ [w]))) \<le> n + int (length w) + 1"
      using length_join_snoc [of cur w] Cons.prems(3) by linarith
    then show ?thesis
      using Cons.prems(1,2) False by (intro Cons.IH [OF _ _ _ _ run]) auto
  qed
qed

subsection \<open>Collapsing whitespace is splitting and joining\<close>

lemma sub_ws_spaces: "c \<in> set (sub_ws s) \<Longrightarrow> isspace c \<Longrightarrow> c = CHR '' ''"
  by (induction s rule: sub_ws.induct) (auto split: if_splits)

lemma isspace_newline [simp]: "isspace newline"
  by (simp add: isspace_def newline_def)

lemma sub_blank_lines_id: "newline \<notin> set s \<Longrightarrow> sub_blank_lines s = s"
  by (induction s) auto

lemma sub_blank_lines_sub_ws [simp]: "sub_blank_lines (sub_ws s) = sub_ws s"
proof (rule sub_blank_lines_id)
  show "newline \<notin> set (sub_ws s)"
  proof
    assume "newline \<in> set (sub_ws s)"
    then have "newline = CHR '' ''"
      using sub_ws_spaces isspace_newline by blast
    then show False
      by (simp add: newline_def)
  qed
qed

lemma sub_ws_word_append: "\<forall>c\<in>set w. \<not> isspace c \<Longrightarrow> sub_ws (w @ t) = w @ sub_ws t"
  by (induction w) auto

lemma lstrip_sub_ws: "dropWhile isspace (sub_ws s) = sub_ws (dropWhile isspace s)"
proof -
  have stop: "dropWhile isspace (sub_ws t) = sub_ws t" if "t = [] \<or> \<not> isspace (hd t)" for t
    using that by (cases t) auto
  have hd: "dropWhile isspace t = [] \<or> \<not> isspace (hd (dropWhile isspace t))" for t
    using hd_dropWhile [of isspace t] by auto
  show ?thesis
  proof (cases s)
    case Nil
    then show ?thesis by simp
  next
    case (Cons c cs)
    show ?thesis
    proof (cases "isspace c")
      case True
      then show ?thesis
        using Cons stop [OF hd [of cs]] by simp
    next
      case False
      then show ?thesis
        using Cons by simp
    qed
  qed
qed

definition rstrip :: "string \<Rightarrow> string" where
  "rstrip s = rev (dropWhile isspace (rev s))"

lemma rstrip_append:
  "rstrip (a @ x) = (if \<forall>c\<in>set x. isspace c then rstrip a else a @ rstrip x)"
  by (simp add: rstrip_def dropWhile_append)

lemma rstrip_word: "word w \<Longrightarrow> rstrip w = w"
proof -
  assume w: "word w"
  then have "rev w \<noteq> [] \<and> \<not> isspace (hd (rev w))"
    by (simp add: word_def hd_rev)
  then have "dropWhile isspace (rev w) = rev w"
    by (cases "rev w") auto
  then show ?thesis
    by (simp add: rstrip_def)
qed

lemma rstrip_eq_Nil: "rstrip x = [] \<longleftrightarrow> (\<forall>c\<in>set x. isspace c)"
  by (simp add: rstrip_def dropWhile_eq_Nil_conv)

lemma rstrip_sub_ws: "rstrip (sub_ws (dropWhile isspace s)) = join '' '' (split s)"
proof (induction s rule: split.induct)
  case (1 s)
  define s' where "s' = dropWhile isspace s"
  show ?case
  proof (cases "s' = []")
    case True
    then have "split s = []"
      by (subst split.simps) (simp add: s'_def)
    moreover have "rstrip (sub_ws s') = []"
      using True by (simp add: rstrip_def)
    ultimately show ?thesis
      by (simp add: s'_def)
  next
    case False
    define w where "w = takeWhile (\<lambda>c. \<not> isspace c) s'"
    define t where "t = dropWhile (\<lambda>c. \<not> isspace c) s'"
    have wt: "s' = w @ t"
      by (simp add: w_def t_def)
    from False obtain d ds where d: "s' = d # ds"
      by (cases s') auto
    have nd: "\<not> isspace d"
      using d s'_def by (metis hd_dropWhile list.sel(1) list.distinct(1))
    have ww: "word w"
      using d nd by (auto simp: word_def w_def dest: set_takeWhileD)
    have wns: "\<forall>c\<in>set w. \<not> isspace c"
      using ww by (simp add: word_def)
    have sp: "split s = w # split t"
      using False by (subst split.simps) (auto simp: s'_def w_def t_def Let_def)
    have ih: "rstrip (sub_ws (dropWhile isspace t)) = join '' '' (split t)"
      using 1 [OF s'_def False] by (simp add: t_def)
    have sw: "sub_ws s' = w @ sub_ws t"
      using wt sub_ws_word_append [OF wns] by simp
    show ?thesis
    proof (cases t)
      case Nil
      then show ?thesis
        using sp sw ww by (simp add: s'_def [symmetric] rstrip_word)
    next
      case (Cons c t')
      have "t \<noteq> []"
        using Cons by simp
      then have "\<not> \<not> isspace (hd t)"
        unfolding t_def by (rule hd_dropWhile)
      then have c: "isspace c"
        using Cons by simp
      define X where "X = sub_ws (dropWhile isspace t)"
      have st: "sub_ws t = CHR '' '' # X"
        using Cons c by (simp add: X_def)
      have rx: "rstrip X = join '' '' (split t)"
        using ih by (simp add: X_def)
      show ?thesis
      proof (cases "split t = []")
        case True
        then have "\<forall>c\<in>set (CHR '' '' # X). isspace c"
          using rx by (simp add: rstrip_eq_Nil)
        then have "rstrip (w @ CHR '' '' # X) = w"
          using rstrip_append [of w "CHR '' '' # X"] ww by (simp add: rstrip_word)
        then show ?thesis
          using sp sw st True by (simp add: s'_def [symmetric])
      next
        case ne: False
        have "\<forall>w\<in>set (split t). w \<noteq> []"
          using split_words word_def by blast
        then have "join '' '' (split t) \<noteq> []"
          using ne by (simp add: join_eq_Nil)
        then have nx: "\<not> (\<forall>c\<in>set X. isspace c)"
          using rx rstrip_eq_Nil [of X] by simp
        have "rstrip ((w @ '' '') @ X) = (w @ '' '') @ rstrip X"
          by (simp only: rstrip_append nx if_False)
        then have "rstrip (w @ CHR '' '' # X) = w @ CHR '' '' # join '' '' (split t)"
          using rx by simp
        moreover have "join '' '' (w # split t) = w @ CHR '' '' # join '' '' (split t)"
          using ne by (cases "split t") auto
        moreover have "sub_ws (dropWhile isspace s) = w @ CHR '' '' # X"
          using sw st by (simp add: s'_def)
        ultimately show ?thesis
          by (simp only: sp)
      qed
    qed
  qed
qed

lemma collapse_whitespace_eq: "collapse_whitespace s = join '' '' (split s)"
proof -
  have "strip (sub_ws s) = rstrip (sub_ws (dropWhile isspace s))"
    by (simp add: strip_def rstrip_def lstrip_sub_ws)
  then show ?thesis
    by (simp add: collapse_whitespace_def rstrip_sub_ws)
qed

lemma split_collapse_whitespace: "split (collapse_whitespace s) = split s"
  by (simp add: collapse_whitespace_eq split_join split_words)

section \<open>Narration chunking\<close>

text \<open>
  C7. Chunking never splits inside a word. For every cleaned narration text, that is every
  result \<open>c\<close> of \<open>_clean_text_for_speech\<close>, and every budget: joining the chunks of
  \<open>chunk_text c max_chars\<close> with single spaces and collapsing whitespace, as the cleaning
  itself does, gives \<open>c\<close> back. The words of the chunks, in order, are the words of the
  text.
\<close>

theorem chunk_text_round_trip:
  "collapse_whitespace
     (join '' '' (chunk_text (clean_text_for_speech remove_markup script_text) max_chars))
     = clean_text_for_speech remove_markup script_text
   \<and> concat (map split (chunk_text (clean_text_for_speech remove_markup script_text) max_chars))
     = split (clean_text_for_speech remove_markup script_text)"
proof -
  define c where "c = clean_text_for_speech remove_markup script_text"
  have c: "c = join '' '' (split (remove_markup script_text))"
    by (simp add: c_def clean_text_for_speech_def collapse_whitespace_eq)
  have sc: "split c = split (remove_markup script_text)"
    by (simp add: c_def clean_text_for_speech_def split_collapse_whitespace)
  have "collapse_whitespace (join '' '' (chunk_text c max_chars))
      = join '' '' (concat (map split (chunk_text c max_chars)))"
    by (simp add: collapse_whitespace_eq split_join_concat)
  also have "\<dots> = join '' '' (split c)"
    by (simp add: chunk_text_words)
  also have "\<dots> = c"
    using c sc by simp
  finally show ?thesis
    by (simp add: c_def [symmetric] chunk_text_words)
qed

text \<open>
  C8 as stated fails: a word longer than the budget is never split, so it is returned
  whole, in a chunk longer than the budget (after an empty first chunk).
\<close>

theorem chunk_text_budget_counterexample:
  "chunk_text ''abcdef'' 3 = ['''', ''abcdef'']
   \<and> \<not> int (length (chunk_text ''abcdef'' 3 ! 1)) \<le> 3"
  by code_simp

text \<open>
  C8, amended. When no word of the text is longer than \<open>max_chars\<close>, every chunk returned
  by \<open>chunk_text\<close> has length at most \<open>max_chars\<close>.
\<close>

theorem chunk_text_within_budget:
  assumes "\<forall>w\<in>set (split text). int (length w) \<le> max_chars"
  shows "\<forall>c\<in>set (chunk_text text max_chars). int (length c) \<le> max_chars"
proof (cases "split text = []")
  case True
  then show ?thesis
    by (simp add: chunk_text_def)
next
  case False
  then obtain w where "w \<in> set (split text)"
    by (cases "split text") auto
  with assms have m: "0 \<le> max_chars"
    by fastforce
  obtain chunks cur n where
    run: "chunk_loop max_chars (split text) ([], [], 0) = (chunks, cur, n)"
    by (cases "chunk_loop max_chars (split text) ([], [], 0)") auto
  have "(\<forall>c\<in>set chunks. int (length c) \<le> max_chars)
      \<and> int (length (join '' '' cur)) \<le> max_chars"
    using assms m by (intro chunk_loop_bound [OF _ _ _ _ run]) auto
  then show ?thesis
    by (auto simp: chunk_text_def run)
qed

theorem chunk_text_within_budget_witness:
  "split ''the quick brown fox'' = [''the'', ''quick'', ''brown'', ''fox'']
   \<and> chunk_text ''the quick brown fox'' 9 = [''the'', ''quick'', ''brown fox'']
   \<and> list_all (\<lambda>c. int (length c) \<le> 9) (chunk_text ''the quick brown fox'' 9)"
proof -
  have s: "split ''the quick brown fox'' = [''the'', ''quick'', ''brown'', ''fox'']"
    by code_simp
  have h: "\<forall>w\<in>set (split ''the quick brown fox''). int (length w) \<le> 9"
    by (simp add: s)
  have v: "chunk_text ''the quick brown fox'' 9 = [''the'', ''quick'', ''brown fox'']"
    by code_simp
  show ?thesis
    using s v chunk_text_within_budget [OF h] by (simp add: list_all_iff)
qed

section \<open>utils.estimate_duration and Script.\_\_post\_init\_\_\<close>

text \<open>Exceptions of the modelled code.\<close>

datatype exn =
    ZeroDivisionError
  | ValueError string
  | RuntimeError string
  | OSError string

text \<open>\<open>int(x)\<close> on a float truncates towards zero.\<close>

definition py_int :: "real \<Rightarrow> int" where
  "py_int x = (if 0 \<le> x then \<lfloor>x\<rfloor> else \<lceil>x\<rceil>)"

text \<open>
  \<open>estimate_duration\<close> returns \<open>int((word_count / wpm) * 60)\<close>. The true division and
  the multiplication are floating-point operations: each gives the exact result rounded
  to a double. The rounding is the parameter \<open>fl\<close>; \<open>fl = (\<lambda>x. x)\<close> is exact
  arithmetic. Division by \<open>wpm = 0\<close> raises.
\<close>

definition estimate_duration :: "(real \<Rightarrow> real) \<Rightarrow> int \<Rightarrow> int \<Rightarrow> exn + int" where
  "estimate_duration fl word_count wpm =
     (if wpm = 0 then Inl ZeroDivisionError
      else Inr (py_int (fl (fl (real_of_int word_count / real_of_int wpm) * 60))))"

text \<open>
  What the proofs need of the rounding: it is monotone, and it is exact on the doubles
  1 and 60. Round-to-nearest has both properties, and so has exact arithmetic.
\<close>

definition rounding :: "(real \<Rightarrow> real) \<Rightarrow> bool" where
  "rounding fl = (mono fl \<and> fl 1 = 1 \<and> fl 60 = 60)"

text \<open>
  \<open>Script.__post_init__\<close> derives both fields from the text: the word count is
  \<open>len(full_text.split())\<close>, the estimated duration is \<open>estimate_duration\<close> of it at the
  default 150 words per minute.
\<close>

definition script_word_count :: "string \<Rightarrow> int" where
  "script_word_count full_text = int (length (split full_text))"

definition script_estimated_duration :: "(real \<Rightarrow> real) \<Rightarrow> string \<Rightarrow> exn + int" where
  "script_estimated_duration fl full_text =
     estimate_duration fl (script_word_count full_text) 150"

lemma py_int_mono: "x \<le> y \<Longrightarrow> py_int x \<le> py_int y"
proof -
  assume xy: "x \<le> y"
  consider "0 \<le> x" | "x < 0" "y < 0" | "x < 0" "0 \<le> y"
    by linarith
  then show ?thesis
  proof cases
    case 1
    then show ?thesis
      using xy by (simp add: py_int_def floor_mono)
  next
    case 2
    then show ?thesis
      using xy by (simp add: py_int_def ceiling_mono)
  next
    case 3
    have "\<lceil>x\<rceil> \<le> 0"
      using 3(1) by (simp add: ceiling_le_zero)
    moreover have "0 \<le> \<lfloor>y\<rfloor>"
      using 3(2) by simp
    ultimately have "\<lceil>x\<rceil> \<le> \<lfloor>y\<rfloor>"
      by (rule order_trans)
    then show ?thesis
      using 3 by (simp add: py_int_def)
  qed
qed

subsection \<open>Double arithmetic\<close>

text \<open>
  The rounding of IEEE-754 double arithmetic, within the normal range: a real that is
  not zero lies in one binade \<open>2^e \<le> |x| < 2^(e+1)\<close>, where the doubles are the multiples
  of \<open>2^(e-52)\<close>; the result is the nearest of them, the one with an even multiplier on a
  tie; the rounding is symmetric about zero.
\<close>

definition round_half_even :: "real \<Rightarrow> int" where
  "round_half_even y =
     (let f = \<lfloor>y\<rfloor>; d = y - of_int f
      in if d < 1 / 2 then f else if 1 / 2 < d then f + 1 else if even f then f else f + 1)"

definition ulp :: "real \<Rightarrow> real" where
  "ulp x = 2 powr (of_int \<lfloor>log 2 \<bar>x\<bar>\<rfloor> - 52)"

definition round_pos :: "real \<Rightarrow> real" where
  "round_pos x = of_int (round_half_even (x / ulp x)) * ulp x"

definition round_double :: "real \<Rightarrow> real" where
  "round_double x = (if x = 0 then 0 else if 0 < x then round_pos x else - round_pos (- x))"

lemma round_half_even_bounds:
  "\<lfloor>y\<rfloor> \<le> round_half_even y \<and> round_half_even y \<le> \<lfloor>y\<rfloor> + 1"
  by (simp add: round_half_even_def Let_def)

lemma round_half_even_of_int [simp]: "round_half_even (of_int k) = k"
  by (simp add: round_half_even_def)

lemma round_half_even_mono:
  assumes "y \<le> z"
  shows "round_half_even y \<le> round_half_even z"
proof (cases "\<lfloor>y\<rfloor> = \<lfloor>z\<rfloor>")
  case True
  then have "y - of_int \<lfloor>y\<rfloor> \<le> z - of_int \<lfloor>z\<rfloor>"
    using assms by simp
  then show ?thesis
    using True by (auto simp: round_half_even_def Let_def)
next
  case False
  then have "\<lfloor>y\<rfloor> + 1 \<le> \<lfloor>z\<rfloor>"
    using floor_mono [OF assms] by linarith
  then show ?thesis
    using round_half_even_bounds [of y] round_half_even_bounds [of z] by linarith
qed

lemma round_half_even_eval:
  "of_int k \<le> y \<Longrightarrow> y < of_int k + 1 / 2 \<Longrightarrow> round_half_even y = k"
proof -
  assume a: "of_int k \<le> y" and b: "y < of_int k + 1 / 2"
  then have "\<lfloor>y\<rfloor> = k"
    by linarith
  then show ?thesis
    using b by (simp add: round_half_even_def Let_def)
qed

lemma binade:
  assumes "0 < x"
  shows "2 powr of_int \<lfloor>log 2 x\<rfloor> \<le> x" and "x < 2 * 2 powr of_int \<lfloor>log 2 x\<rfloor>"
proof -
  have "\<lfloor>log 2 x\<rfloor> = \<lfloor>log 2 x\<rfloor>" ..
  then have "2 powr of_int \<lfloor>log 2 x\<rfloor> \<le> x \<and> x < 2 powr of_int (\<lfloor>log 2 x\<rfloor> + 1)"
    using floor_log_eq_powr_iff [of x 2 "\<lfloor>log 2 x\<rfloor>"] assms by simp
  then show "2 powr of_int \<lfloor>log 2 x\<rfloor> \<le> x" and "x < 2 * 2 powr of_int \<lfloor>log 2 x\<rfloor>"
    by (simp_all add: powr_add)
qed

lemma ulp_pos [simp]: "0 < ulp x"
  by (simp add: ulp_def)

text \<open>The number of multiples of the unit in a binade.\<close>

definition two52 :: int where
  "two52 = 2 ^ 52"

lemma two52_pos [simp]: "0 < two52"
  by (simp add: two52_def)

lemma ulp_binade: "0 < x \<Longrightarrow> ulp x * of_int two52 = 2 powr of_int \<lfloor>log 2 x\<rfloor>"
proof -
  assume "0 < x"
  then have ax: "\<bar>x\<bar> = x"
    by simp
  have "(2::real) powr 52 = 2 ^ 52"
    using powr_realpow [of "2::real" 52] by simp
  then have "(2::real) powr 52 = of_int two52"
    by (simp add: two52_def)
  then show ?thesis
    by (simp add: ulp_def powr_diff ax)
qed

lemma scaled_bounds:
  assumes "0 < x"
  shows "of_int two52 \<le> x / ulp x" and "x / ulp x \<le> of_int (2 * two52)"
proof -
  have u1: "ulp x * of_int two52 \<le> x"
    using binade(1) [OF assms] by (simp only: ulp_binade [OF assms])
  have u2: "x < 2 * (ulp x * of_int two52)"
    using binade(2) [OF assms] by (simp only: ulp_binade [OF assms])
  have "of_int two52 * ulp x \<le> x"
    using u1 by (simp only: mult.commute)
  then show "of_int two52 \<le> x / ulp x"
    by (simp only: pos_le_divide_eq [OF ulp_pos])
  have "x < (2 * of_int two52) * ulp x"
    using u2 by (simp only: mult_ac)
  then have "x / ulp x < 2 * of_int two52"
    by (simp only: pos_divide_less_eq [OF ulp_pos])
  then show "x / ulp x \<le> of_int (2 * two52)"
    by simp
qed

lemma round_pos_bounds:
  assumes "0 < x"
  shows "2 powr of_int \<lfloor>log 2 x\<rfloor> \<le> round_pos x"
    and "round_pos x \<le> 2 * 2 powr of_int \<lfloor>log 2 x\<rfloor>"
proof -
  have "round_half_even (of_int two52) \<le> round_half_even (x / ulp x)"
    using scaled_bounds(1) [OF assms] by (rule round_half_even_mono)
  then have "two52 \<le> round_half_even (x / ulp x)"
    by (simp only: round_half_even_of_int)
  then have "(of_int two52 :: real) \<le> of_int (round_half_even (x / ulp x))"
    by (simp only: of_int_le_iff)
  then have "of_int two52 * ulp x \<le> of_int (round_half_even (x / ulp x)) * ulp x"
    by (rule mult_right_mono) (simp add: less_imp_le)
  then have "ulp x * of_int two52 \<le> round_pos x"
    by (simp only: round_pos_def mult.commute)
  then show "2 powr of_int \<lfloor>log 2 x\<rfloor> \<le> round_pos x"
    by (simp only: ulp_binade [OF assms])
  have "round_half_even (x / ulp x) \<le> round_half_even (of_int (2 * two52))"
    using scaled_bounds(2) [OF assms] by (rule round_half_even_mono)
  then have "round_half_even (x / ulp x) \<le> 2 * two52"
    by (simp only: round_half_even_of_int)
  then have "(of_int (round_half_even (x / ulp x)) :: real) \<le> of_int (2 * two52)"
    by (simp only: of_int_le_iff)
  then have "of_int (round_half_even (x / ulp x)) * ulp x \<le> of_int (2 * two52) * ulp x"
    by (rule mult_right_mono) (simp add: less_imp_le)
  moreover have "of_int (2 * two52) * ulp x = 2 * (ulp x * of_int two52)"
    by simp
  ultimately have "round_pos x \<le> 2 * (ulp x * of_int two52)"
    by (simp only: round_pos_def)
  then show "round_pos x \<le> 2 * 2 powr of_int \<lfloor>log 2 x\<rfloor>"
    by (simp only: ulp_binade [OF assms])
qed

lemma round_pos_pos:
  assumes "0 < x"
  shows "0 < round_pos x"
proof -
  have "(0::real) < 2 powr of_int \<lfloor>log 2 x\<rfloor>"
    by simp
  then show ?thesis
    using round_pos_bounds(1) [OF assms] by linarith
qed

lemma round_pos_mono:
  assumes "0 < x" and "x \<le> y"
  shows "round_pos x \<le> round_pos y"
proof -
  have y: "0 < y"
    using assms by simp
  have le: "\<lfloor>log 2 x\<rfloor> \<le> \<lfloor>log 2 y\<rfloor>"
    using assms by (intro floor_mono) simp
  show ?thesis
  proof (cases "\<lfloor>log 2 x\<rfloor> = \<lfloor>log 2 y\<rfloor>")
    case True
    then have u: "ulp x = ulp y"
      using assms(1) y by (simp add: ulp_def)
    have "x / ulp y \<le> y / ulp y"
      using assms(2) by (rule divide_right_mono) (simp add: less_imp_le)
    then have "round_half_even (x / ulp y) \<le> round_half_even (y / ulp y)"
      by (rule round_half_even_mono)
    then show ?thesis
      by (simp add: round_pos_def u mult_right_mono)
  next
    case False
    then have "\<lfloor>log 2 x\<rfloor> + 1 \<le> \<lfloor>log 2 y\<rfloor>"
      using le by simp
    then have "(2::real) powr of_int (\<lfloor>log 2 x\<rfloor> + 1) \<le> 2 powr of_int \<lfloor>log 2 y\<rfloor>"
      by (intro powr_mono) simp_all
    then have "2 * (2::real) powr of_int \<lfloor>log 2 x\<rfloor> \<le> 2 powr of_int \<lfloor>log 2 y\<rfloor>"
      by (simp add: powr_add)
    then show ?thesis
      using round_pos_bounds(2) [OF assms(1)] round_pos_bounds(1) [OF y] by linarith
  qed
qed

lemma mono_round_double: "mono round_double"
proof (rule monoI)
  fix x y :: real
  assume xy: "x \<le> y"
  consider "0 < x" | "x \<le> 0" "0 \<le> y" | "y < 0"
    using xy by linarith
  then show "round_double x \<le> round_double y"
  proof cases
    case 1
    then show ?thesis
      using xy round_pos_mono [of x y] by (simp add: round_double_def)
  next
    case 2
    have "round_double x \<le> 0"
      using round_pos_pos [of "- x"] 2(1) by (auto simp: round_double_def intro: less_imp_le)
    moreover have "0 \<le> round_double y"
      using round_pos_pos [of y] 2(2) by (auto simp: round_double_def intro: less_imp_le)
    ultimately show ?thesis
      by simp
  next
    case 3
    then have "round_pos (- y) \<le> round_pos (- x)"
      using xy by (intro round_pos_mono) simp_all
    then show ?thesis
      using 3 xy by (simp add: round_double_def)
  qed
qed

text \<open>Evaluation in a binade given by a natural exponent, and doubles that are kept.\<close>

lemma ulp_eval:
  assumes "2 ^ n \<le> x" and "x < 2 * 2 ^ n"
  shows "ulp x = 2 ^ n / 2 ^ 52"
proof -
  have x: "0 < x"
    using assms(1) by (meson less_le_trans zero_less_numeral zero_less_power)
  have p: "(2::real) powr real n = 2 ^ n"
    by (simp add: powr_realpow)
  have "(2::real) powr of_int (int n) \<le> x \<and> x < 2 powr of_int (int n + 1)"
    using assms by (simp add: p powr_add)
  then have "\<lfloor>log 2 x\<rfloor> = int n"
    using floor_log_eq_powr_iff [of x 2 "int n"] x by simp
  then have "ulp x * of_int two52 = 2 ^ n"
    using ulp_binade [OF x] p by simp
  then have "ulp x * 2 ^ 52 = 2 ^ n"
    by (simp add: two52_def)
  then show ?thesis
    by (simp add: field_simps)
qed

lemma round_double_eval:
  assumes "2 ^ n \<le> x" and "x < 2 * 2 ^ n"
    and "of_int k \<le> x * 2 ^ 52 / 2 ^ n" and "x * 2 ^ 52 / 2 ^ n < of_int k + 1 / 2"
  shows "round_double x = of_int k * 2 ^ n / 2 ^ 52"
proof -
  have x: "0 < x"
    using assms(1) by (meson less_le_trans zero_less_numeral zero_less_power)
  have u: "ulp x = 2 ^ n / 2 ^ 52"
    using assms(1,2) by (rule ulp_eval)
  have "x / ulp x = x * 2 ^ 52 / 2 ^ n"
    by (simp add: u)
  then have "round_half_even (x / ulp x) = k"
    using assms(3,4) by (simp add: round_half_even_eval)
  then show ?thesis
    using x by (simp add: round_double_def round_pos_def u)
qed

lemma round_double_1 [simp]: "round_double 1 = 1"
  using round_double_eval [of 0 1 "2 ^ 52"] by simp

lemma round_double_60 [simp]: "round_double 60 = 60"
  using round_double_eval [of 5 60 "60 * 2 ^ 47"] by simp

lemma rounding_round_double: "rounding round_double"
  by (simp add: rounding_def mono_round_double)

lemma rounding_exact: "rounding (\<lambda>x. x)"
  by (simp add: rounding_def mono_def)

text \<open>The estimate for 615 words in double arithmetic: 4.1 is rounded down.\<close>

lemma round_double_615: "round_double (615 / 150) = 4616189618054758 / 2 ^ 50"
  using round_double_eval [of 2 "615 / 150" 4616189618054758] by simp

lemma round_double_615_60:
  "round_double (4616189618054758 / 2 ^ 50 * 60) = 8655355533852671 / 2 ^ 45"
  using round_double_eval [of 7 "4616189618054758 / 2 ^ 50 * 60" 8655355533852671] by simp

lemma estimate_duration_615: "estimate_duration round_double 615 150 = Inr 245"
proof -
  have e1: "estimate_duration round_double 615 150
      = Inr (py_int (round_double (round_double (615 / 150) * 60)))"
    by (simp add: estimate_duration_def)
  have e2: "round_double (round_double (615 / 150) * 60) = 8655355533852671 / 2 ^ 45"
    by (simp only: round_double_615 round_double_615_60)
  have e3: "py_int (8655355533852671 / 2 ^ 45) = 245"
    by (simp add: py_int_def floor_eq_iff)
  show ?thesis
    by (simp only: e1 e2 e3)
qed

text \<open>
  C9 as stated fails: in double arithmetic the estimate is not always
  \<open>floor(word_count / 150 * 60)\<close>. At 615 words the quotient 4.1 is rounded down, its
  product with 60 is rounded to the double next below 246, and the estimate is 245;
  the floor is 246.
\<close>

theorem estimate_duration_floor_counterexample:
  "estimate_duration round_double 615 150 = Inr 245
   \<and> \<lfloor>real_of_int 615 / 150 * 60\<rfloor> = (246::int)
   \<and> estimate_duration round_double 615 150 \<noteq> Inr \<lfloor>real_of_int 615 / 150 * 60\<rfloor>"
proof -
  have "\<lfloor>real_of_int 615 / 150 * 60\<rfloor> = (246::int)"
    by (simp add: floor_eq_iff)
  then show ?thesis
    by (simp add: estimate_duration_615)
qed

text \<open>
  C9, amended. The estimated duration is \<open>int((word_count / 150) * 60)\<close> as double
  arithmetic computes it. It is monotonically increasing (not strictly) in the word count
  over the natural numbers and it is 60 at 150 words: under every rounding that is
  monotone and exact on 1 and 60, and the rounding of double arithmetic is one.
\<close>

theorem estimate_duration_double_monotone:
  assumes "rounding fl" and "0 \<le> a" and "a \<le> b"
  shows "(\<exists>x y. estimate_duration fl a 150 = Inr x \<and> estimate_duration fl b 150 = Inr y \<and> x \<le> y)
    \<and> estimate_duration fl 150 150 = Inr 60
    \<and> rounding round_double"
proof -
  have m: "mono fl" and one: "fl 1 = 1" and sixty: "fl 60 = 60"
    using assms(1) by (simp_all add: rounding_def)
  have "real_of_int a / 150 \<le> real_of_int b / 150"
    using assms(3) by (simp add: divide_right_mono)
  then have "fl (real_of_int a / 150) \<le> fl (real_of_int b / 150)"
    using m by (simp add: monoD)
  then have "fl (real_of_int a / 150) * 60 \<le> fl (real_of_int b / 150) * 60"
    by simp
  then have "fl (fl (real_of_int a / 150) * 60) \<le> fl (fl (real_of_int b / 150) * 60)"
    using m by (simp add: monoD)
  then have mono: "py_int (fl (fl (real_of_int a / 150) * 60))
      \<le> py_int (fl (fl (real_of_int b / 150) * 60))"
    by (rule py_int_mono)
  have at150: "estimate_duration fl 150 150 = Inr 60"
    by (simp add: estimate_duration_def one sixty py_int_def)
  show ?thesis
    using mono at150 rounding_round_double by (simp add: estimate_duration_def)
qed

theorem estimate_duration_double_monotone_witness:
  "rounding round_double
   \<and> estimate_duration round_double 150 150 = Inr 60
   \<and> estimate_duration round_double 615 150 = Inr 245"
  using estimate_duration_double_monotone [OF rounding_round_double, of 150 615]
    estimate_duration_615 by simp

section \<open>utils.handle_errors\<close>

text \<open>
  A Python value is modelled as \<open>'a option\<close>, with \<open>None\<close> for Python's \<open>None\<close>. The
  wrapped function is effectful: it takes the state of the world and returns it changed,
  together with its value (\<open>Inr\<close>) or the \<open>Exception\<close> it raised (\<open>Inl\<close>).
  \<open>except Exception\<close> catches every exception of type \<open>'e\<close>.
\<close>

type_synonym ('w, 'e, 'a) operation = "'w \<Rightarrow> ('e + 'a option) \<times> 'w"

text \<open>The three log calls of the wrapper: info, error (when \<open>log_errors\<close>), warning.\<close>

datatype 'e log_record =
    Info_succeeded int
  | Error_attempt 'e int int
  | Warning_fallback

text \<open>
  What a call of the wrapper leaves behind: what it returned or raised, the world, the
  number of invocations of the wrapped function, the arguments of \<open>time.sleep\<close> in order,
  and the log.
\<close>

record ('w, 'e, 'a) run =
  result :: "'e + 'a option"
  world :: 'w
  calls :: nat
  sleeps :: "real list"
  logged :: "'e log_record list"

text \<open>
  \<open>for attempt in range(retry_count)\<close>, from \<open>attempt\<close> on. When the range is exhausted
  without a return the wrapper falls off its end and returns \<open>None\<close>.
\<close>

function wrapper_loop ::
  "int \<Rightarrow> real \<Rightarrow> 'a option \<Rightarrow> bool \<Rightarrow> ('w, 'e, 'a) operation \<Rightarrow> int
    \<Rightarrow> 'w \<Rightarrow> nat \<Rightarrow> real list \<Rightarrow> 'e log_record list \<Rightarrow> ('w, 'e, 'a) run"
where
  "wrapper_loop retry_count retry_delay fallback log_errors func attempt w n sl lg =
     (if attempt < retry_count then
        (case func w of
           (Inr res, w') \<Rightarrow>
             \<lparr>result = Inr res, world = w', calls = Suc n, sleeps = sl,
              logged = (if attempt > 0 then lg @ [Info_succeeded (attempt + 1)] else lg)\<rparr>
         | (Inl e, w') \<Rightarrow>
             (let lg' = (if log_errors then lg @ [Error_attempt e (attempt + 1) retry_count]
                         else lg)
              in if attempt < retry_count - 1
                 then wrapper_loop retry_count retry_delay fallback log_errors func (attempt + 1)
                        w' (Suc n) (sl @ [retry_delay * 2 ^ nat attempt]) lg'
                 else if fallback \<noteq> None
                 then \<lparr>result = Inr fallback, world = w', calls = Suc n, sleeps = sl,
                       logged = lg' @ [Warning_fallback]\<rparr>
                 else \<lparr>result = Inl e, world = w', calls = Suc n, sleeps = sl,
                       logged = lg'\<rparr>))
      else \<lparr>result = Inr None, world = w, calls = n, sleeps = sl, logged = lg\<rparr>)"
  by pat_completeness auto
termination
  by (relation "measure (\<lambda>(retry_count, _, _, _, _, attempt, _). nat (retry_count - attempt))")
    auto

declare wrapper_loop.simps [simp del]

definition handle_errors ::
  "int \<Rightarrow> real \<Rightarrow> 'a option \<Rightarrow> bool \<Rightarrow> ('w, 'e, 'a) operation \<Rightarrow> 'w \<Rightarrow> ('w, 'e, 'a) run"
where
  "handle_errors retry_count retry_delay fallback log_errors func w =
     wrapper_loop retry_count retry_delay fallback log_errors func 0 w 0 [] []"

text \<open>
  The keyword arguments of \<open>handle_errors\<close>, each given or left out; a parameter left
  out takes its default: \<open>retry_count=3\<close>, \<open>retry_delay=1.0\<close>, \<open>fallback=None\<close>,
  \<open>log_errors=True\<close>.
\<close>

record 'a handle_errors_args =
  arg_retry_count :: "int option"
  arg_retry_delay :: "real option"
  arg_fallback :: "'a option option"
  arg_log_errors :: "bool option"

definition handle_errors_call ::
  "'a handle_errors_args \<Rightarrow> ('w, 'e, 'a) operation \<Rightarrow> 'w \<Rightarrow> ('w, 'e, 'a) run"
where
  "handle_errors_call args =
     handle_errors
       (case arg_retry_count args of None \<Rightarrow> 3 | Some n \<Rightarrow> n)
       (case arg_retry_delay args of None \<Rightarrow> 1 | Some d \<Rightarrow> d)
       (case arg_fallback args of None \<Rightarrow> None | Some f \<Rightarrow> f)
       (case arg_log_errors args of None \<Rightarrow> True | Some l \<Rightarrow> l)"

text \<open>The decorator of \<open>VideoAssembler._load_visual\<close>: \<open>@handle_errors(retry_count=2, fallback=None)\<close>.\<close>

definition load_visual_decorator :: "('w, 'e, 'a) operation \<Rightarrow> 'w \<Rightarrow> ('w, 'e, 'a) run" where
  "load_visual_decorator =
     handle_errors_call
       \<lparr>arg_retry_count = Some 2, arg_retry_delay = None, arg_fallback = Some None,
        arg_log_errors = None\<rparr>"

text \<open>
  The outcomes of \<open>k\<close> successive invocations of an operation, from the world \<open>w\<close>: the
  yardstick the wrapper is measured against.
\<close>

fun outcomes :: "('w, 'e, 'a) operation \<Rightarrow> 'w \<Rightarrow> nat \<Rightarrow> ('e + 'a option) list" where
  "outcomes func w 0 = []"
| "outcomes func w (Suc k) = (case func w of (r, w') \<Rightarrow> r # outcomes func w' k)"

subsection \<open>One iteration\<close>

lemma wrapper_loop_success:
  assumes "func w = (Inr v, w')" and "attempt < N"
  shows "wrapper_loop N D fb le func attempt w n sl lg =
    \<lparr>result = Inr v, world = w', calls = Suc n, sleeps = sl,
     logged = (if attempt > 0 then lg @ [Info_succeeded (attempt + 1)] else lg)\<rparr>"
  using assms by (subst wrapper_loop.simps) simp

lemma wrapper_loop_retry:
  assumes "func w = (Inl e, w')" and "attempt < N - 1"
  shows "wrapper_loop N D fb le func attempt w n sl lg =
    wrapper_loop N D fb le func (attempt + 1) w' (Suc n) (sl @ [D * 2 ^ nat attempt])
      (if le then lg @ [Error_attempt e (attempt + 1) N] else lg)"
  using assms by (subst wrapper_loop.simps) (simp add: Let_def)

lemma wrapper_loop_exhausted:
  assumes "func w = (Inl e, w')" and "attempt = N - 1"
  shows "result (wrapper_loop N D fb le func attempt w n sl lg) =
      (case fb of Some f \<Rightarrow> Inr (Some f) | None \<Rightarrow> Inl e)"
    and "calls (wrapper_loop N D fb le func attempt w n sl lg) = Suc n"
    and "sleeps (wrapper_loop N D fb le func attempt w n sl lg) = sl"
  using assms by (subst wrapper_loop.simps; simp add: Let_def split: option.splits)+

subsection \<open>Runs of the loop\<close>

lemma map_upt_shift: "map f [0..<Suc m] = f 0 # map (\<lambda>i. f (Suc i)) [0..<m]"
  by (simp add: map_upt_Suc del: upt_Suc)

lemma wrapper_loop_first_success:
  assumes "outcomes func w (Suc (length es)) = map Inl es @ [Inr v]"
    and "0 \<le> attempt" and "attempt + int (length es) < N"
  shows "result (wrapper_loop N D fb le func attempt w n sl lg) = Inr v
    \<and> calls (wrapper_loop N D fb le func attempt w n sl lg) = n + length es + 1
    \<and> sleeps (wrapper_loop N D fb le func attempt w n sl lg) =
        sl @ map (\<lambda>i. D * 2 ^ (nat attempt + i)) [0..<length es]"
  using assms
proof (induction es arbitrary: attempt w n sl lg)
  case Nil
  then obtain w' where "func w = (Inr v, w')"
    by (cases "func w") auto
  then show ?case
    using Nil.prems by (simp add: wrapper_loop_success)
next
  case (Cons e es)
  obtain r w' where f: "func w = (r, w')"
    by (cases "func w") auto
  with Cons.prems(1) have r: "r = Inl e"
    and rest: "outcomes func w' (Suc (length es)) = map Inl es @ [Inr v]"
    by auto
  have step: "wrapper_loop N D fb le func attempt w n sl lg =
      wrapper_loop N D fb le func (attempt + 1) w' (Suc n) (sl @ [D * 2 ^ nat attempt])
        (if le then lg @ [Error_attempt e (attempt + 1) N] else lg)"
    using f r Cons.prems(3) by (intro wrapper_loop_retry) auto
  have nat: "nat (attempt + 1) = Suc (nat attempt)"
    using Cons.prems(2) by simp
  have ih: "result (wrapper_loop N D fb le func (attempt + 1) w' (Suc n)
        (sl @ [D * 2 ^ nat attempt]) (if le then lg @ [Error_attempt e (attempt + 1) N] else lg))
        = Inr v
    \<and> calls (wrapper_loop N D fb le func (attempt + 1) w' (Suc n)
        (sl @ [D * 2 ^ nat attempt]) (if le then lg @ [Error_attempt e (attempt + 1) N] else lg))
        = Suc n + length es + 1
    \<and> sleeps (wrapper_loop N D fb le func (attempt + 1) w' (Suc n)
        (sl @ [D * 2 ^ nat attempt]) (if le then lg @ [Error_attempt e (attempt + 1) N] else lg))
        = (sl @ [D * 2 ^ nat attempt]) @ map (\<lambda>i. D * 2 ^ (nat (attempt + 1) + i)) [0..<length es]"
    using Cons.prems(2,3) by (intro Cons.IH [OF rest]) auto
  have "map (\<lambda>i. D * 2 ^ (nat attempt + i)) [0..<length (e # es)]
      = D * 2 ^ nat attempt # map (\<lambda>i. D * 2 ^ (nat (attempt + 1) + i)) [0..<length es]"
    using map_upt_shift [of "\<lambda>i. D * 2 ^ (nat attempt + i)" "length es"] by (simp add: nat)
  then show ?case
    using ih by (simp add: step)
qed

lemma wrapper_loop_all_fail:
  assumes "outcomes func w (length es) = map Inl es" and "es \<noteq> []"
    and "0 \<le> attempt" and "attempt + int (length es) = N"
  shows "result (wrapper_loop N D fb le func attempt w n sl lg) =
        (case fb of Some f \<Rightarrow> Inr (Some f) | None \<Rightarrow> Inl (last es))
    \<and> calls (wrapper_loop N D fb le func attempt w n sl lg) = n + length es
    \<and> sleeps (wrapper_loop N D fb le func attempt w n sl lg) =
        sl @ map (\<lambda>i. D * 2 ^ (nat attempt + i)) [0..<length es - 1]"
  using assms
proof (induction es arbitrary: attempt w n sl lg)
  case Nil
  then show ?case by simp
next
  case (Cons e es)
  obtain r w' where f: "func w = (r, w')"
    by (cases "func w") auto
  with Cons.prems(1) have r: "r = Inl e"
    and rest: "outcomes func w' (length es) = map Inl es"
    by auto
  show ?case
  proof (cases "es = []")
    case True
    then have "attempt = N - 1"
      using Cons.prems(4) by simp
    then show ?thesis
      using wrapper_loop_exhausted [of func w e w' attempt N D fb le n sl lg] f r True
      by (simp split: option.splits)
  next
    case False
    have step: "wrapper_loop N D fb le func attempt w n sl lg =
        wrapper_loop N D fb le func (attempt + 1) w' (Suc n) (sl @ [D * 2 ^ nat attempt])
          (if le then lg @ [Error_attempt e (attempt + 1) N] else lg)"
      using f r Cons.prems(4) False by (intro wrapper_loop_retry) (auto simp: length_greater_0_conv [symmetric] simp del: length_greater_0_conv)
    have nat: "nat (attempt + 1) = Suc (nat attempt)"
      using Cons.prems(3) by simp
    have ih: "result (wrapper_loop N D fb le func (attempt + 1) w' (Suc n)
          (sl @ [D * 2 ^ nat attempt]) (if le then lg @ [Error_attempt e (attempt + 1) N] else lg))
          = (case fb of Some f \<Rightarrow> Inr (Some f) | None \<Rightarrow> Inl (last es))
      \<and> calls (wrapper_loop N D fb le func (attempt + 1) w' (Suc n)
          (sl @ [D * 2 ^ nat attempt]) (if le then lg @ [Error_attempt e (attempt + 1) N] else lg))
          = Suc n + length es
      \<and> sleeps (wrapper_loop N D fb le func (attempt + 1) w' (Suc n)
          (sl @ [D * 2 ^ nat attempt]) (if le then lg @ [Error_attempt e (attempt + 1) N] else lg))
          = (sl @ [D * 2 ^ nat attempt])
            @ map (\<lambda>i. D * 2 ^ (nat (attempt + 1) + i)) [0..<length es - 1]"
      using Cons.prems(3,4) False by (intro Cons.IH [OF rest]) auto
    obtain m where m: "length es = Suc m"
      using False by (cases es) auto
    have "map (\<lambda>i. D * 2 ^ (nat attempt + i)) [0..<length (e # es) - 1]
        = D * 2 ^ nat attempt # map (\<lambda>i. D * 2 ^ (nat (attempt + 1) + i)) [0..<length es - 1]"
      using map_upt_shift [of "\<lambda>i. D * 2 ^ (nat attempt + i)" m] by (simp add: nat m)
    then show ?thesis
      using ih False by (simp add: step split: option.splits)
  qed
qed

lemma wrapper_loop_calls:
  "calls (wrapper_loop N D fb le func attempt w n sl lg) \<le> n + nat (N - attempt)"
proof (induction "nat (N - attempt)" arbitrary: attempt w n sl lg)
  case 0
  then have "\<not> attempt < N"
    by simp
  then show ?case
    by (subst wrapper_loop.simps) simp
next
  case (Suc k)
  then have lt: "attempt < N"
    by simp
  obtain r w' where f: "func w = (r, w')"
    by (cases "func w") auto
  show ?case
  proof (cases r)
    case (Inr v)
    then show ?thesis
      using f lt by (simp add: wrapper_loop_success)
  next
    case (Inl e)
    show ?thesis
    proof (cases "attempt < N - 1")
      case True
      have "k = nat (N - (attempt + 1))"
        using Suc.hyps(2) by simp
      from Suc.hyps(1) [OF this]
      have "calls (wrapper_loop N D fb le func (attempt + 1) w' (Suc n) (sl @ [D * 2 ^ nat attempt])
          (if le then lg @ [Error_attempt e (attempt + 1) N] else lg))
          \<le> Suc n + nat (N - (attempt + 1))" .
      then show ?thesis
        using f Inl True by (simp add: wrapper_loop_retry)
    next
      case False
      then have "attempt = N - 1"
        using lt by simp
      then show ?thesis
        using wrapper_loop_exhausted(2) [of func w e w' attempt N D fb le n sl lg] f Inl lt
        by simp
    qed
  qed
qed

lemma map_upt_from_one: "map (\<lambda>a. f (a - 1)) [1..<Suc m] = map f [0..<m]"
  by (induction m) auto

lemma length_outcomes [simp]: "length (outcomes func w k) = k"
  by (induction k arbitrary: w) (auto split: prod.splits)

text \<open>Two operations on a world that counts the invocations, for the witnesses.\<close>

definition flaky :: "(nat, exn, nat) operation" where
  "flaky w = (if w < 2 then Inl (OSError ''timeout'') else Inr (Some w), Suc w)"

definition unreachable :: "(nat, exn, nat) operation" where
  "unreachable w = (Inl (OSError ''unreachable''), Suc w)"

text \<open>
  C1. The retry executor with maximum attempt count \<open>N \<ge> 1\<close>, base delay \<open>D\<close> and an
  optional fallback invokes the operation at most \<open>N\<close> times. If the first attempts fail
  with the exceptions \<open>es\<close> and the next one, still among the \<open>N\<close>, returns \<open>v\<close>, then
  \<open>v\<close> is returned at once, and the executor has slept \<open>D * 2^(attempt - 1)\<close> after each
  failed attempt, attempts numbered from 1. If all \<open>N\<close> attempts fail, the executor has
  slept so after each attempt but the last, and returns the fallback if one was supplied
  (a value other than \<open>None\<close>); otherwise the exception of the last attempt propagates.
\<close>

theorem handle_errors_contract:
  assumes "1 \<le> N"
  shows "calls (handle_errors N D fallback log_errors func w) \<le> nat N
    \<and> (length es < nat N \<and> outcomes func w (Suc (length es)) = map Inl es @ [Inr v] \<longrightarrow>
         result (handle_errors N D fallback log_errors func w) = Inr v
         \<and> calls (handle_errors N D fallback log_errors func w) = Suc (length es)
         \<and> sleeps (handle_errors N D fallback log_errors func w) =
             map (\<lambda>attempt. D * 2 ^ (attempt - 1)) [1..<Suc (length es)])
    \<and> (outcomes func w (nat N) = map Inl es' \<longrightarrow>
         calls (handle_errors N D fallback log_errors func w) = nat N
         \<and> sleeps (handle_errors N D fallback log_errors func w) =
             map (\<lambda>attempt. D * 2 ^ (attempt - 1)) [1..<nat N]
         \<and> result (handle_errors N D fallback log_errors func w) =
             (case fallback of Some f \<Rightarrow> Inr (Some f) | None \<Rightarrow> Inl (last es')))"
proof (intro conjI impI)
  show "calls (handle_errors N D fallback log_errors func w) \<le> nat N"
    using wrapper_loop_calls [of N D fallback log_errors func 0 w 0 "[]" "[]"]
    by (simp add: handle_errors_def)
next
  assume a: "length es < nat N \<and> outcomes func w (Suc (length es)) = map Inl es @ [Inr v]"
  then have "(0::int) + int (length es) < N"
    by linarith
  with a have run: "result (wrapper_loop N D fallback log_errors func 0 w 0 [] []) = Inr v
    \<and> calls (wrapper_loop N D fallback log_errors func 0 w 0 [] []) = 0 + length es + 1
    \<and> sleeps (wrapper_loop N D fallback log_errors func 0 w 0 [] []) =
        [] @ map (\<lambda>i. D * 2 ^ (nat 0 + i)) [0..<length es]"
    by (intro wrapper_loop_first_success) auto
  show "result (handle_errors N D fallback log_errors func w) = Inr v"
    using run by (simp add: handle_errors_def)
  show "calls (handle_errors N D fallback log_errors func w) = Suc (length es)"
    using run by (simp add: handle_errors_def)
  show "sleeps (handle_errors N D fallback log_errors func w) =
      map (\<lambda>attempt. D * 2 ^ (attempt - 1)) [1..<Suc (length es)]"
    using run map_upt_from_one [of "\<lambda>i. D * 2 ^ i" "length es"]
    by (simp add: handle_errors_def)
next
  assume a: "outcomes func w (nat N) = map Inl es'"
  have "length (outcomes func w (nat N)) = nat N"
    by simp
  with a have len: "length es' = nat N"
    by simp
  with assms have ne: "es' \<noteq> []" and sum: "(0::int) + int (length es') = N"
    by auto
  from a len have "outcomes func w (length es') = map Inl es'"
    by simp
  then have run: "result (wrapper_loop N D fallback log_errors func 0 w 0 [] []) =
        (case fallback of Some f \<Rightarrow> Inr (Some f) | None \<Rightarrow> Inl (last es'))
    \<and> calls (wrapper_loop N D fallback log_errors func 0 w 0 [] []) = 0 + length es'
    \<and> sleeps (wrapper_loop N D fallback log_errors func 0 w 0 [] []) =
        [] @ map (\<lambda>i. D * 2 ^ (nat 0 + i)) [0..<length es' - 1]"
    using ne sum by (intro wrapper_loop_all_fail) auto
  show "calls (handle_errors N D fallback log_errors func w) = nat N"
    using run len by (simp add: handle_errors_def)
  obtain m where m: "nat N = Suc m"
    using assms by (cases "nat N") auto
  show "sleeps (handle_errors N D fallback log_errors func w) =
      map (\<lambda>attempt. D * 2 ^ (attempt - 1)) [1..<nat N]"
    using run len m map_upt_from_one [of "\<lambda>i. D * 2 ^ i" m]
    by (simp add: handle_errors_def)
  show "result (handle_errors N D fallback log_errors func w) =
      (case fallback of Some f \<Rightarrow> Inr (Some f) | None \<Rightarrow> Inl (last es'))"
    using run by (simp add: handle_errors_def)
qed

theorem handle_errors_contract_witness:
  "result (handle_errors 3 1 (Some 0) True flaky 0) = Inr (Some 2)
   \<and> calls (handle_errors 3 1 (Some 0) True flaky 0) = 3
   \<and> sleeps (handle_errors 3 1 (Some 0) True flaky 0) = [1, 2]
   \<and> result (handle_errors 2 1 (Some 0) True flaky 0) = Inr (Some 0)
   \<and> calls (handle_errors 2 1 (Some 0) True flaky 0) = 2
   \<and> sleeps (handle_errors 2 1 (Some 0) True flaky 0) = [1]
   \<and> result (handle_errors 2 1 None True flaky 0) = Inl (OSError ''timeout'')"
proof -
  let ?e = "OSError ''timeout''"
  have three: "outcomes flaky 0 (Suc (length [?e, ?e])) = map Inl [?e, ?e] @ [Inr (Some 2)]"
    by (simp add: flaky_def)
  have two: "outcomes flaky 0 (nat 2) = map Inl [?e, ?e]"
    by (simp add: flaky_def numeral_2_eq_2)
  have up: "[1..<3] = [1, 2::nat]" "[1..<2] = [1::nat]" "[Suc 0..<2] = [Suc 0]"
    by (simp_all add: upt_rec)
  have "result (handle_errors 3 1 (Some 0) True flaky 0) = Inr (Some 2)
    \<and> calls (handle_errors 3 1 (Some 0) True flaky 0) = 3
    \<and> sleeps (handle_errors 3 1 (Some 0) True flaky 0) = [1, 2]"
    using handle_errors_contract [of 3 1 "Some 0" True flaky 0 "[?e, ?e]" "Some 2"] three
    by (simp add: up numeral_3_eq_3)
  moreover have "result (handle_errors 2 1 (Some 0) True flaky 0) = Inr (Some 0)
    \<and> calls (handle_errors 2 1 (Some 0) True flaky 0) = 2
    \<and> sleeps (handle_errors 2 1 (Some 0) True flaky 0) = [1]"
    using handle_errors_contract [of 2 1 "Some 0" True flaky 0 _ _ "[?e, ?e]"] two
    by (simp add: up)
  moreover have "result (handle_errors 2 1 None True flaky 0) = Inl ?e"
    using handle_errors_contract [of 2 1 None True flaky 0 _ _ "[?e, ?e]"] two
    by simp
  ultimately show ?thesis
    by simp
qed

text \<open>
  C10. Supplying \<open>fallback=None\<close> is indistinguishable from supplying no fallback: the
  two calls are the same call. When every one of the \<open>N \<ge> 1\<close> attempts fails, with the
  exceptions \<open>es\<close>, and the fallback is \<open>None\<close>, the exception of the last attempt
  propagates; whatever the fallback, \<open>None\<close> is not returned. So the decorator of
  \<open>_load_visual\<close>, with two attempts and \<open>fallback=None\<close>, provides no fallback: two
  failures propagate the second exception.
\<close>

theorem fallback_None_is_no_fallback:
  assumes "1 \<le> N" and "outcomes func w (nat N) = map Inl es"
  shows
    "handle_errors_call \<lparr>arg_retry_count = n, arg_retry_delay = d, arg_fallback = Some None,
        arg_log_errors = l\<rparr> func w
      = handle_errors_call \<lparr>arg_retry_count = n, arg_retry_delay = d, arg_fallback = None,
          arg_log_errors = l\<rparr> func w
    \<and> result (handle_errors N D None log_errors func w) = Inl (last es)
    \<and> result (handle_errors N D fallback log_errors func w) \<noteq> Inr None
    \<and> (N = 2 \<longrightarrow> result (load_visual_decorator func w) = Inl (last es))"
proof -
  have "length (outcomes func w (nat N)) = nat N"
    by simp
  with assms(2) have len: "length es = nat N"
    by simp
  with assms(1) have ne: "es \<noteq> []" and sum: "(0::int) + int (length es) = N"
    by auto
  from assms(2) len have out: "outcomes func w (length es) = map Inl es"
    by simp
  have run: "result (wrapper_loop N D' fb le func 0 w 0 [] []) =
      (case fb of Some f \<Rightarrow> Inr (Some f) | None \<Rightarrow> Inl (last es))" for D' fb le
    using wrapper_loop_all_fail [OF out ne _ sum, of D' fb le 0 "[]" "[]"] by simp
  have same: "handle_errors_call \<lparr>arg_retry_count = n, arg_retry_delay = d,
        arg_fallback = Some None, arg_log_errors = l\<rparr> func w
      = handle_errors_call \<lparr>arg_retry_count = n, arg_retry_delay = d, arg_fallback = None,
          arg_log_errors = l\<rparr> func w"
    by (simp add: handle_errors_call_def)
  have none: "result (handle_errors N D None log_errors func w) = Inl (last es)"
    using run [of D None log_errors] by (simp add: handle_errors_def)
  have never: "result (handle_errors N D fallback log_errors func w) \<noteq> Inr None"
    using run [of D fallback log_errors] by (simp add: handle_errors_def split: option.splits)
  have deco: "result (load_visual_decorator func w) = Inl (last es)" if "N = 2"
    using run [of 1 None True] that
    by (simp add: load_visual_decorator_def handle_errors_call_def handle_errors_def)
  show ?thesis
    using same none never deco by simp
qed

theorem fallback_None_is_no_fallback_witness:
  "result (handle_errors 2 1 None True unreachable 0) = Inl (OSError ''unreachable'')
   \<and> result (load_visual_decorator unreachable 0) = Inl (OSError ''unreachable'')
   \<and> result (handle_errors 2 1 (Some 5) True unreachable 0) \<noteq> Inr None"
proof -
  let ?e = "OSError ''unreachable''"
  have two: "outcomes unreachable 0 (nat 2) = map Inl [?e, ?e]"
    by (simp add: unreachable_def numeral_2_eq_2)
  show ?thesis
    using fallback_None_is_no_fallback [of 2 unreachable 0 "[?e, ?e]" _ _ _ 1 True "Some 5", OF _ two]
    by simp
qed

section \<open>compliance\_checker.ComplianceChecker\<close>

text \<open>\<open>visual_sourcer.Visual\<close>; the fields \<open>id\<close> and \<open>type\<close> are \<open>visual_id\<close> and \<open>visual_type\<close>.\<close>

record visual =
  visual_id :: string
  visual_type :: string
  source :: string
  url :: string
  download_url :: string
  local_path :: "string option"
  width :: int
  height :: int
  duration :: real
  description :: string

record ComplianceReport =
  passed :: bool
  score :: int
  visual_safety :: string
  content_originality :: string
  monetization_ready :: bool
  issues :: "string list"
  recommendations :: "string list"

definition SAFE_VISUAL_SOURCES :: "string list" where
  "SAFE_VISUAL_SOURCES = [''pexels'', ''pixabay'', ''pollinations'', ''unsplash'', ''ai_generated'']"

definition RISKY_SOURCES :: "string list" where
  "RISKY_SOURCES = [''youtube'', ''twitter'', ''tiktok'', ''instagram'', ''unknown'']"

text \<open>
  The loop of \<open>check_visuals\<close> on \<open>(issues, safe_count, risky_count)\<close>, the issues
  written \<open>iss\<close>. The safe list is tested first: a source that holds a safe name is
  counted safe whatever else it holds.
\<close>

fun check_visuals_loop ::
  "visual list \<Rightarrow> string list \<times> nat \<times> nat \<Rightarrow> string list \<times> nat \<times> nat"
where
  "check_visuals_loop [] st = st"
| "check_visuals_loop (v # vs) (iss, safe_count, risky_count) =
     (let src = lower (source v)
      in if list_ex (\<lambda>safe. py_in safe src) SAFE_VISUAL_SOURCES
         then check_visuals_loop vs (iss, safe_count + 1, risky_count)
         else if list_ex (\<lambda>risky. py_in risky src) RISKY_SOURCES
         then check_visuals_loop vs
                (iss @ [''Risky visual source: '' @ source v @ '' - '' @ visual_id v],
                 safe_count, risky_count + 1)
         else check_visuals_loop vs
                (iss @ [''Unknown source needs review: '' @ source v],
                 safe_count, risky_count))"

definition check_visuals :: "visual list \<Rightarrow> string \<times> string list" where
  "check_visuals visuals =
     (case check_visuals_loop visuals ([], 0, 0) of
        (iss, safe_count, risky_count) \<Rightarrow>
          (if risky_count > 0 then ''risk''
           else if safe_count = length visuals then ''safe''
           else ''warning'',
           iss))"

text \<open>The class the loop body gives one visual: which of its three branches it takes.\<close>

datatype source_class = Safe | Risky | Unknown

definition classify :: "visual \<Rightarrow> source_class" where
  "classify v =
     (let src = lower (source v)
      in if list_ex (\<lambda>safe. py_in safe src) SAFE_VISUAL_SOURCES then Safe
         else if list_ex (\<lambda>risky. py_in risky src) RISKY_SOURCES then Risky
         else Unknown)"

definition positive_phrases :: "string list" where
  "positive_phrases =
     [''in my analysis'', ''what this means'', ''the implications'',
      ''looking at this'', ''my take on'', ''as we can see'',
      ''this suggests'', ''the data shows'', ''according to'',
      ''experts believe'', ''studies indicate'', ''research shows'']"

text \<open>
  The value of \<open>originality_score\<close> in \<open>check_script_originality\<close> when the status is
  determined: the loop over the phrases, then the length check.
\<close>

definition originality_score :: "string \<Rightarrow> int" where
  "originality_score script_text =
     (let script_lower = lower script_text;
          after_phrases =
            fold (\<lambda>phrase sc. if py_in phrase script_lower then sc + 10 else sc)
              positive_phrases 0;
          word_count = length (split script_text)
      in if word_count \<ge> 2000 then after_phrases + 20 else after_phrases)"

definition check_script_originality :: "string \<Rightarrow> string \<times> string list" where
  "check_script_originality script_text =
     (if originality_score script_text \<ge> 50 then (''high'', [])
      else if originality_score script_text \<ge> 30 then (''medium'', [])
      else (''low'', [''Script may lack sufficient original commentary'']))"

text \<open>
  \<open>check_monetization_requirements\<close>. Each recommendation starts with a check mark
  (U+2713), a code point outside the characters of this model; it is left out.
\<close>

definition check_monetization_requirements :: "bool \<times> string list" where
  "check_monetization_requirements =
     (True,
      [''Use only stock footage (Pexels/Pixabay) or AI images (Pollinations)'',
       ''Add original analysis and commentary throughout'',
       ''Upload manually to avoid automation detection'',
       ''Review video fully before making public'',
       ''Write unique description (not template-only)'',
       ''Create custom thumbnail through YT Studio''])"

text \<open>
  \<open>run_full_check\<close>. \<open>visuals\<close> defaults to \<open>None\<close>; \<open>if visuals\<close> holds for a list that
  is not empty, \<open>if script_text\<close> for a string that is not empty. The report is then
  written to a file and to the log by \<open>_log_report\<close>, which does not change it.
\<close>

definition run_full_check :: "visual list option \<Rightarrow> string \<Rightarrow> ComplianceReport" where
  "run_full_check visuals script_text =
     (let (visual_status, issues1, scores1) =
            (case visuals of
               None \<Rightarrow> (''unknown'', [], [50])
             | Some vs \<Rightarrow>
                 if vs \<noteq> [] then
                   (case check_visuals vs of
                      (visual_status, visual_issues) \<Rightarrow>
                        (visual_status, visual_issues,
                         [if visual_status = ''safe'' then 100
                          else if visual_status = ''warning'' then 50 else 20]))
                 else (''unknown'', [], [50]));
          (originality_status, issues2, scores2) =
            (if script_text \<noteq> [] then
               (case check_script_originality script_text of
                  (originality_status, originality_issues) \<Rightarrow>
                    (originality_status, issues1 @ originality_issues,
                     scores1 @ [if originality_status = ''high'' then 100
                                else if originality_status = ''medium'' then 70 else 40]))
             else (''unknown'', issues1, scores1 @ [50]));
          (ready, monetization_recs) = check_monetization_requirements;
          overall_score =
            (if scores2 \<noteq> [] then sum_list scores2 div int (length scores2) else (0::int));
          pass = (overall_score \<ge> 70 \<and> visual_status \<noteq> ''risk'')
      in \<lparr>passed = pass, score = overall_score, visual_safety = visual_status,
          content_originality = (if script_text \<noteq> [] then originality_status else ''unknown''),
          monetization_ready = (ready \<and> pass), issues = issues2,
          recommendations = monetization_recs\<rparr>)"

subsection \<open>Visual safety\<close>

lemma check_visuals_loop_Cons:
  "check_visuals_loop (v # vs) (iss, safe_count, risky_count) =
     (case classify v of
        Safe \<Rightarrow> check_visuals_loop vs (iss, safe_count + 1, risky_count)
      | Risky \<Rightarrow> check_visuals_loop vs
          (iss @ [''Risky visual source: '' @ source v @ '' - '' @ visual_id v],
           safe_count, risky_count + 1)
      | Unknown \<Rightarrow> check_visuals_loop vs
          (iss @ [''Unknown source needs review: '' @ source v], safe_count, risky_count))"
  by (simp add: classify_def Let_def)

lemma check_visuals_loop_risky:
  "check_visuals_loop vs (iss, safe_count, risky_count) = (iss', safe_count', risky_count')
    \<Longrightarrow> risky_count' = risky_count + length (filter (\<lambda>v. classify v = Risky) vs)"
proof (induction vs arbitrary: iss safe_count risky_count)
  case Nil
  then show ?case by simp
next
  case (Cons v vs)
  show ?case
  proof (cases "classify v")
    case Safe
    with Cons.prems
    have "check_visuals_loop vs (iss, safe_count + 1, risky_count) = (iss', safe_count', risky_count')"
      by (simp only: check_visuals_loop_Cons source_class.case)
    from Cons.IH [OF this] show ?thesis
      using Safe by simp
  next
    case Risky
    with Cons.prems
    have "check_visuals_loop vs
        (iss @ [''Risky visual source: '' @ source v @ '' - '' @ visual_id v],
         safe_count, risky_count + 1) = (iss', safe_count', risky_count')"
      by (simp only: check_visuals_loop_Cons source_class.case)
    from Cons.IH [OF this] show ?thesis
      using Risky by simp
  next
    case Unknown
    with Cons.prems
    have "check_visuals_loop vs
        (iss @ [''Unknown source needs review: '' @ source v], safe_count, risky_count)
        = (iss', safe_count', risky_count')"
      by (simp only: check_visuals_loop_Cons source_class.case)
    from Cons.IH [OF this] show ?thesis
      using Unknown by simp
  qed
qed

lemma check_visuals_risk:
  assumes "\<exists>v\<in>set visuals. classify v = Risky"
  shows "fst (check_visuals visuals) = ''risk''"
proof -
  obtain iss' safe_count' risky_count' where
    run: "check_visuals_loop visuals ([], 0, 0) = (iss', safe_count', risky_count')"
    by (cases "check_visuals_loop visuals ([], 0, 0)") auto
  have "filter (\<lambda>v. classify v = Risky) visuals \<noteq> []"
    using assms by (simp add: filter_empty_conv)
  then have "0 < risky_count'"
    using check_visuals_loop_risky [OF run] by simp
  then show ?thesis
    by (simp add: check_visuals_def run)
qed

text \<open>
  C2. When the list of visuals passed to the full compliance check contains a visual
  that the check classifies as risky, the report has \<open>visual_safety == "risk"\<close> and
  \<open>passed == False\<close>, whatever the script and whatever the score.
\<close>

theorem risky_visual_fails_report:
  assumes "\<exists>v\<in>set visuals. classify v = Risky"
  shows "visual_safety (run_full_check (Some visuals) script_text) = ''risk''
    \<and> \<not> passed (run_full_check (Some visuals) script_text)"
proof -
  have ne: "visuals \<noteq> []"
    using assms by auto
  obtain st iss where cv: "check_visuals visuals = (st, iss)"
    by (cases "check_visuals visuals") auto
  have st: "st = ''risk''"
    using check_visuals_risk [OF assms] cv by simp
  show ?thesis
    by (simp add: run_full_check_def ne cv st Let_def split: prod.splits)
qed

text \<open>Example visuals for the witness: a stock image and a clip taken from a video site.\<close>

definition stock_visual :: visual where
  "stock_visual =
     \<lparr>visual_id = ''pexels_1'', visual_type = ''image'', source = ''pexels'',
      url = ''https://www.pexels.com/photo/1'', download_url = ''https://images.pexels.com/1.jpg'',
      local_path = None, width = 1920, height = 1080, duration = 0, description = ''robot''\<rparr>"

definition scraped_visual :: visual where
  "scraped_visual = stock_visual\<lparr>visual_id := ''yt_7'', visual_type := ''video'', source := ''YouTube''\<rparr>"

theorem risky_visual_fails_report_witness:
  "classify scraped_visual = Risky
   \<and> visual_safety (run_full_check (Some [stock_visual, scraped_visual]) ''according to'') = ''risk''
   \<and> \<not> passed (run_full_check (Some [stock_visual, scraped_visual]) ''according to'')"
proof -
  have r: "classify scraped_visual = Risky"
    by code_simp
  then have "\<exists>v\<in>set [stock_visual, scraped_visual]. classify v = Risky"
    by simp
  from risky_visual_fails_report [OF this, of "''according to''"] r show ?thesis
    by simp
qed

text \<open>The safe list wins: a source that names a safe and a risky provider is classified safe.\<close>

lemma safe_name_wins: "classify (scraped_visual\<lparr>source := ''youtube via pexels''\<rparr>) = Safe"
  by code_simp

subsection \<open>Script originality\<close>

text \<open>
  The number of occurrences of a phrase in a text (the positions where it starts), for
  stating what the code does not count.
\<close>

fun occurrences :: "string \<Rightarrow> string \<Rightarrow> nat" where
  "occurrences sub [] = 0"
| "occurrences sub (c # cs) = (if startswith (c # cs) sub then 1 else 0) + occurrences sub cs"

text \<open>Filler for long scripts: \<open>k\<close> times the word \<open>w\<close>.\<close>

definition pad :: "nat \<Rightarrow> string" where
  "pad k = concat (replicate k ''w '')"

text \<open>Six times the same phrase, and 2100 words.\<close>

definition repetitive_script :: string where
  "repetitive_script =
     ''according to according to according to according to according to according to''
     @ '' '' @ pad 2088"

text \<open>Six different phrases, and 2100 words.\<close>

definition varied_script :: string where
  "varied_script =
     ''In my analysis what this means, the implications: looking at this, my take on it! As we can see''
     @ '' '' @ pad 2081"

lemma startswith_iff: "startswith s p \<longleftrightarrow> (\<exists>t. s = p @ t)"
  by (induction s p rule: startswith.induct) auto

lemma py_in_iff: "py_in p s \<longleftrightarrow> (\<exists>a b. s = a @ p @ b)"
proof (induction s)
  case Nil
  then show ?case by auto
next
  case (Cons c cs)
  show ?case
  proof
    assume "py_in p (c # cs)"
    then consider "startswith (c # cs) p" | "py_in p cs"
      by auto
    then show "\<exists>a b. c # cs = a @ p @ b"
    proof cases
      case 1
      then obtain t where "c # cs = [] @ p @ t"
        by (auto simp: startswith_iff)
      then show ?thesis
        by blast
    next
      case 2
      then obtain a b where "cs = a @ p @ b"
        using Cons.IH by auto
      then have "c # cs = (c # a) @ p @ b"
        by simp
      then show ?thesis
        by blast
    qed
  next
    assume "\<exists>a b. c # cs = a @ p @ b"
    then obtain a b where ab: "c # cs = a @ p @ b"
      by auto
    show "py_in p (c # cs)"
    proof (cases a)
      case Nil
      then have "startswith (c # cs) p"
        unfolding startswith_iff using ab by auto
      then show ?thesis
        by simp
    next
      case (Cons d a')
      then have "cs = a' @ p @ b"
        using ab by simp
      then show ?thesis
        using Cons.IH by auto
    qed
  qed
qed

lemma py_in_append: "py_in p a \<Longrightarrow> py_in p (a @ b)"
proof -
  assume "py_in p a"
  then obtain x y where "a = x @ p @ y"
    by (auto simp: py_in_iff)
  then have "a @ b = x @ p @ (y @ b)"
    by simp
  then show ?thesis
    unfolding py_in_iff by blast
qed

lemma py_in_chars: "py_in p s \<Longrightarrow> set p \<subseteq> set s"
  by (auto simp: py_in_iff)

lemma startswith_chars: "startswith s p \<Longrightarrow> set p \<subseteq> set s"
  by (auto simp: startswith_iff)

lemma occurrences_absent: "c \<in> set p \<Longrightarrow> c \<notin> set s \<Longrightarrow> occurrences p s = 0"
proof (induction s)
  case Nil
  then show ?case by simp
next
  case (Cons d ds)
  have "\<not> startswith (d # ds) p"
    using Cons.prems startswith_chars [of "d # ds" p] by blast
  then show ?case
    using Cons by simp
qed

lemma startswith_append_last:
  assumes "p \<noteq> []" and "last p \<notin> set b"
  shows "startswith (a @ b) p \<longleftrightarrow> startswith a p"
proof
  assume "startswith a p"
  then obtain t where "a = p @ t"
    by (auto simp: startswith_iff)
  then have "a @ b = p @ (t @ b)"
    by simp
  then show "startswith (a @ b) p"
    unfolding startswith_iff by blast
next
  assume "startswith (a @ b) p"
  then obtain t where "a @ b = p @ t"
    by (auto simp: startswith_iff)
  then consider us where "a = p @ us" | us where "a @ us = p" "b = us @ t"
    by (auto simp: append_eq_append_conv2)
  then show "startswith a p"
  proof cases
    case 1
    then show ?thesis
      by (auto simp: startswith_iff)
  next
    case 2
    show ?thesis
    proof (cases "us = []")
      case True
      then show ?thesis
        using 2 by (auto simp: startswith_iff)
    next
      case False
      then have "last p = last us"
        using 2(1) by auto
      then have "last p \<in> set b"
        using False 2(2) by auto
      then show ?thesis
        using assms(2) by simp
    qed
  qed
qed

lemma occurrences_append:
  assumes "p \<noteq> []" and "last p \<notin> set b"
  shows "occurrences p (a @ b) = occurrences p a"
proof (induction a)
  case Nil
  have "last p \<in> set p"
    using assms(1) by simp
  then show ?case
    using occurrences_absent assms(2) by simp
next
  case (Cons c cs)
  have "startswith ((c # cs) @ b) p \<longleftrightarrow> startswith (c # cs) p"
    using assms by (rule startswith_append_last)
  then show ?case
    using Cons by simp
qed

lemma word_w: "word ''w''"
  by (simp add: word_def isspace_def)

lemma split_pad: "split (pad k) = replicate k ''w''"
proof (induction k)
  case 0
  then show ?case by (simp add: pad_def)
next
  case (Suc k)
  have "split (''w'' @ CHR '' '' # pad k) = ''w'' # split (CHR '' '' # pad k)"
    by (rule split_word_append [OF word_w]) simp
  then show ?case
    using Suc by (simp add: pad_def)
qed

lemma length_split_padded: "length (split (F @ '' '' @ pad k)) = length (split F) + k"
  using split_append_sep [of "CHR '' ''" F "pad k"] by (simp add: split_pad)

lemma lower_append: "lower (a @ b) = lower a @ lower b"
  by (simp add: lower_def)

lemma lower_pad: "lower (pad k) = pad k"
proof (induction k)
  case 0
  then show ?case by (simp add: pad_def lower_def)
next
  case (Suc k)
  have "pad (Suc k) = ''w '' @ pad k"
    by (simp add: pad_def)
  moreover have "lower ''w '' = ''w ''"
    by code_simp
  ultimately show ?case
    using Suc by (simp only: lower_append)
qed

lemma set_pad: "set (pad k) \<subseteq> {CHR ''w'', CHR '' ''}"
  by (induction k) (auto simp: pad_def)

lemma lower_padded: "lower (F @ '' '' @ pad k) = lower F @ '' '' @ pad k"
proof -
  have "lower '' '' = '' ''"
    by code_simp
  then show ?thesis
    by (simp only: lower_append lower_pad)
qed

lemma set_lower_padded:
  "set (lower (F @ '' '' @ pad k)) \<subseteq> set (lower F) \<union> {CHR ''w'', CHR '' ''}"
proof -
  have "set (lower F @ '' '' @ pad k) \<subseteq> set (lower F) \<union> {CHR ''w'', CHR '' ''}"
    using set_pad [of k] by auto
  then show ?thesis
    by (simp only: lower_padded)
qed

lemma present_phrase:
  assumes "py_in p (lower F)"
  shows "py_in p (lower (F @ '' '' @ pad k))"
  using assms by (simp only: lower_padded py_in_append)

lemma absent_phrase:
  assumes "c \<in> set p" and "c \<notin> set (lower F)" and "c \<noteq> CHR ''w''" and "c \<noteq> CHR '' ''"
  shows "\<not> py_in p (lower (F @ '' '' @ pad k))"
proof
  assume "py_in p (lower (F @ '' '' @ pad k))"
  then have "c \<in> set (lower (F @ '' '' @ pad k))"
    using assms(1) py_in_chars by blast
  then show False
    using assms(2-4) set_lower_padded [of F k] by blast
qed

lemma absent_occurrences:
  assumes "c \<in> set p" and "c \<notin> set (lower F)" and "c \<noteq> CHR ''w''" and "c \<noteq> CHR '' ''"
  shows "occurrences p (lower (F @ '' '' @ pad k)) = 0"
proof (rule occurrences_absent [OF assms(1)])
  show "c \<notin> set (lower (F @ '' '' @ pad k))"
    using assms(2-4) set_lower_padded [of F k] by blast
qed

lemma fold_phrases:
  "fold (\<lambda>phrase sc. if P phrase then sc + 10 else sc) ps (a::int)
    = a + 10 * int (length (filter P ps))"
  by (induction ps arbitrary: a) auto

lemma originality_score_eq:
  "originality_score script_text =
     10 * int (length (filter (\<lambda>phrase. py_in phrase (lower script_text)) positive_phrases))
     + (if 2000 \<le> length (split script_text) then 20 else 0)"
  by (simp add: originality_score_def Let_def fold_phrases)

lemma originality_tier:
  "fst (check_script_originality script_text) =
     (if 50 \<le> originality_score script_text then ''high''
      else if 30 \<le> originality_score script_text then ''medium'' else ''low'')"
  by (simp add: check_script_originality_def)

lemma repetitive_script_words: "length (split repetitive_script) = 2100"
proof -
  have "length (split
      ''according to according to according to according to according to according to'') = 12"
    by code_simp
  then show ?thesis
    by (simp only: repetitive_script_def length_split_padded)
qed

lemma repetitive_script_phrases:
  "filter (\<lambda>phrase. py_in phrase (lower repetitive_script)) positive_phrases = [''according to'']"
proof -
  have p: "py_in ''according to'' (lower repetitive_script)"
    unfolding repetitive_script_def by (rule present_phrase) code_simp
  have a: "\<not> py_in ''in my analysis'' (lower repetitive_script)"
    "\<not> py_in ''my take on'' (lower repetitive_script)"
    unfolding repetitive_script_def by (rule absent_phrase [where c = "CHR ''m''"]; code_simp)+
  have b: "\<not> py_in ''what this means'' (lower repetitive_script)"
    "\<not> py_in ''the implications'' (lower repetitive_script)"
    "\<not> py_in ''this suggests'' (lower repetitive_script)"
    "\<not> py_in ''the data shows'' (lower repetitive_script)"
    unfolding repetitive_script_def by (rule absent_phrase [where c = "CHR ''h''"]; code_simp)+
  have c: "\<not> py_in ''looking at this'' (lower repetitive_script)"
    unfolding repetitive_script_def by (rule absent_phrase [where c = "CHR ''l''"]; code_simp)
  have d: "\<not> py_in ''as we can see'' (lower repetitive_script)"
    "\<not> py_in ''studies indicate'' (lower repetitive_script)"
    unfolding repetitive_script_def by (rule absent_phrase [where c = "CHR ''s''"]; code_simp)+
  have e: "\<not> py_in ''experts believe'' (lower repetitive_script)"
    "\<not> py_in ''research shows'' (lower repetitive_script)"
    unfolding repetitive_script_def by (rule absent_phrase [where c = "CHR ''e''"]; code_simp)+
  show ?thesis
    by (simp add: positive_phrases_def p a b c d e)
qed

lemma repetitive_script_occurrences:
  "sum_list (map (\<lambda>phrase. occurrences phrase (lower repetitive_script)) positive_phrases) = 6"
proof -
  let ?F = "''according to according to according to according to according to according to''"
  have "last ''according to'' \<notin> set ('' '' @ pad 2088)"
    using set_pad [of 2088] by auto
  then have "occurrences ''according to'' (lower ?F @ '' '' @ pad 2088)
      = occurrences ''according to'' (lower ?F)"
    by (intro occurrences_append) simp_all
  moreover have "occurrences ''according to'' (lower ?F) = 6"
    by code_simp
  ultimately have p: "occurrences ''according to'' (lower repetitive_script) = 6"
    by (simp only: repetitive_script_def lower_padded)
  have a: "occurrences ''in my analysis'' (lower repetitive_script) = 0"
    "occurrences ''my take on'' (lower repetitive_script) = 0"
    unfolding repetitive_script_def by (rule absent_occurrences [where c = "CHR ''m''"]; code_simp)+
  have b: "occurrences ''what this means'' (lower repetitive_script) = 0"
    "occurrences ''the implications'' (lower repetitive_script) = 0"
    "occurrences ''this suggests'' (lower repetitive_script) = 0"
    "occurrences ''the data shows'' (lower repetitive_script) = 0"
    unfolding repetitive_script_def by (rule absent_occurrences [where c = "CHR ''h''"]; code_simp)+
  have c: "occurrences ''looking at this'' (lower repetitive_script) = 0"
    unfolding repetitive_script_def by (rule absent_occurrences [where c = "CHR ''l''"]; code_simp)
  have d: "occurrences ''as we can see'' (lower repetitive_script) = 0"
    "occurrences ''studies indicate'' (lower repetitive_script) = 0"
    unfolding repetitive_script_def by (rule absent_occurrences [where c = "CHR ''s''"]; code_simp)+
  have e: "occurrences ''experts believe'' (lower repetitive_script) = 0"
    "occurrences ''research shows'' (lower repetitive_script) = 0"
    unfolding repetitive_script_def by (rule absent_occurrences [where c = "CHR ''e''"]; code_simp)+
  show ?thesis
    by (simp add: positive_phrases_def p a b c d e)
qed

text \<open>
  C5 as stated fails: a phrase counts once however often it occurs. A script of 2100
  words with six occurrences of positive phrases, all of them ``according to'', scores
  10 + 20 = 30, not 80, and is classified ``medium'', not ``high''.
\<close>

theorem originality_per_occurrence_counterexample:
  "sum_list (map (\<lambda>phrase. occurrences phrase (lower repetitive_script)) positive_phrases) = 6
   \<and> length (split repetitive_script) = 2100
   \<and> originality_score repetitive_script = 30
   \<and> originality_score repetitive_script \<noteq> 10 * 6 + 20
   \<and> fst (check_script_originality repetitive_script) = ''medium''"
proof -
  have s: "originality_score repetitive_script = 30"
    by (simp add: originality_score_eq repetitive_script_phrases repetitive_script_words)
  then have "fst (check_script_originality repetitive_script) = ''medium''"
    by (simp add: originality_tier)
  then show ?thesis
    using s repetitive_script_occurrences repetitive_script_words by simp
qed

text \<open>
  C5, amended. For every script text the originality score is 10 for each phrase of the
  fixed list that occurs in the lower-cased text, counted once however often it occurs,
  plus 20 when the word count is at least 2000; the tier is ``high'' from 50, ``medium''
  from 30, ``low'' below. In particular a script in which six different phrases of the
  list occur and that has 2100 words scores 80 and is classified ``high''.
\<close>

theorem originality_score_counts_phrases_once:
  "originality_score script_text =
     10 * int (length (filter (\<lambda>phrase. py_in phrase (lower script_text)) positive_phrases))
     + (if 2000 \<le> length (split script_text) then 20 else 0)
   \<and> fst (check_script_originality script_text) =
     (if 50 \<le> originality_score script_text then ''high''
      else if 30 \<le> originality_score script_text then ''medium'' else ''low'')
   \<and> (length (filter (\<lambda>phrase. py_in phrase (lower script_text)) positive_phrases) = 6
       \<and> length (split script_text) = 2100
      \<longrightarrow> originality_score script_text = 80
        \<and> fst (check_script_originality script_text) = ''high'')"
  using originality_score_eq [of script_text] originality_tier [of script_text] by simp

lemma varied_script_words: "length (split varied_script) = 2100"
proof -
  have "length (split
      ''In my analysis what this means, the implications: looking at this, my take on it! As we can see'')
      = 19"
    by code_simp
  then show ?thesis
    by (simp only: varied_script_def length_split_padded)
qed

lemma varied_script_phrases:
  "filter (\<lambda>phrase. py_in phrase (lower varied_script)) positive_phrases =
     [''in my analysis'', ''what this means'', ''the implications'',
      ''looking at this'', ''my take on'', ''as we can see'']"
proof -
  have p: "py_in ''in my analysis'' (lower varied_script)"
    "py_in ''what this means'' (lower varied_script)"
    "py_in ''the implications'' (lower varied_script)"
    "py_in ''looking at this'' (lower varied_script)"
    "py_in ''my take on'' (lower varied_script)"
    "py_in ''as we can see'' (lower varied_script)"
    unfolding varied_script_def by (rule present_phrase, code_simp)+
  have a: "\<not> py_in ''this suggests'' (lower varied_script)"
    "\<not> py_in ''studies indicate'' (lower varied_script)"
    unfolding varied_script_def by (rule absent_phrase [where c = "CHR ''u''"]; code_simp)+
  have b: "\<not> py_in ''the data shows'' (lower varied_script)"
    "\<not> py_in ''according to'' (lower varied_script)"
    unfolding varied_script_def by (rule absent_phrase [where c = "CHR ''d''"]; code_simp)+
  have c: "\<not> py_in ''experts believe'' (lower varied_script)"
    unfolding varied_script_def by (rule absent_phrase [where c = "CHR ''x''"]; code_simp)
  have d: "\<not> py_in ''research shows'' (lower varied_script)"
    unfolding varied_script_def by (rule absent_phrase [where c = "CHR ''r''"]; code_simp)
  show ?thesis
    by (simp add: positive_phrases_def p a b c d)
qed

theorem originality_score_counts_phrases_once_witness:
  "length (filter (\<lambda>phrase. py_in phrase (lower varied_script)) positive_phrases) = 6
   \<and> length (split varied_script) = 2100
   \<and> originality_score varied_script = 80
   \<and> fst (check_script_originality varied_script) = ''high''"
  using originality_score_counts_phrases_once [of varied_script]
  by (simp add: varied_script_phrases varied_script_words)

section \<open>topic\_discovery.TopicDiscovery.\_calculate\_score\<close>

text \<open>
  \<open>topic_discovery.Topic\<close>; the fields \<open>id\<close>, \<open>source\<close>, \<open>url\<close> and \<open>score\<close> are
  \<open>topic_id\<close>, \<open>topic_source\<close>, \<open>topic_url\<close> and \<open>topic_score\<close>.
\<close>

record topic =
  topic_id :: string
  title :: string
  topic_source :: string
  topic_url :: string
  published :: string
  topic_score :: real
  keywords_matched :: "string list"
  summary :: string

text \<open>\<open>CONTENT_CONFIG["keywords"]\<close> of \<open>config.py\<close>, which \<open>TopicDiscovery\<close> takes as its keywords.\<close>

definition CONTENT_CONFIG_keywords :: "string list" where
  "CONTENT_CONFIG_keywords =
     [''AI layoffs 2026'', ''robotics unemployment'', ''artificial intelligence jobs'',
      ''automation job loss'', ''humanoid robots workers'', ''ChatGPT replacing jobs'',
      ''AI mass unemployment'', ''robot workforce 2026'']"

definition high_value :: "string list" where
  "high_value = [''mass layoff'', ''job loss'', ''unemploy'', ''replace'', ''automat'', ''robot'']"

definition viral_terms :: "string list" where
  "viral_terms = [''breaking'', ''just'', ''shock'', ''warn'', ''crisis'', ''fear'', ''million'']"

text \<open>
  \<open>_calculate_score\<close> returns the score and leaves it, with the matched keywords, in the
  topic. The \<open>try\<close> block parses the publication stamp and takes its age in days from the
  clock; \<open>days_old\<close> stands for both: it gives \<open>None\<close> when the block raises (the bare
  \<open>except\<close> then passes), the age otherwise. The score is a float holding small whole
  numbers; the division of the Reddit bonus is taken exact.
\<close>

definition calculate_score ::
  "string list \<Rightarrow> (string \<Rightarrow> int option) \<Rightarrow> topic \<Rightarrow> real \<times> topic"
where
  "calculate_score keywords days_old topic =
     (let title_lower = lower (title topic);
          summary_lower = lower (summary topic);
          txt = title_lower @ '' '' @ summary_lower;
          (sc1, matched_keywords) =
            fold (\<lambda>keyword (sc, matched).
                    if py_in (lower keyword) txt then (sc + 20, matched @ [keyword])
                    else (sc, matched))
              keywords (0, []);
          sc2 = fold (\<lambda>trm sc. if py_in trm txt then sc + 15 else sc) high_value sc1;
          sc3 = fold (\<lambda>trm sc. if py_in trm txt then sc + 5 else sc) viral_terms sc2;
          sc4 = (if py_in ''2026'' txt \<or> py_in ''2025'' txt then sc3 + 10 else sc3);
          sc5 = (if startswith (topic_source topic) ''reddit''
                 then sc4 + min (topic_score topic / 100) 20 else sc4);
          sc6 = (case days_old (published topic) of
                   None \<Rightarrow> sc5
                 | Some d \<Rightarrow>
                     if d \<le> 1 then sc5 + 30
                     else if d \<le> 3 then sc5 + 15
                     else if d \<le> 7 then sc5 + 5
                     else sc5)
      in (sc6, topic\<lparr>topic_score := sc6, keywords_matched := matched_keywords\<rparr>))"

text \<open>
  The topic of the scenario, as \<open>fetch_google_news\<close> builds it, with its publication
  stamp; and a clock for which every stamp parses and is of today.
\<close>

definition layoffs_topic :: "string \<Rightarrow> topic" where
  "layoffs_topic stamp =
     \<lparr>topic_id = ''5f2b8c1d9e04'', title = ''AI layoffs hit 2 million workers in 2026'',
      topic_source = ''google_news'', topic_url = ''https://news.google.com/rss/articles/1'',
      published = stamp, topic_score = 0, keywords_matched = [], summary = ''''\<rparr>"

definition published_today :: "string \<Rightarrow> int option" where
  "published_today stamp = Some 0"

definition layoffs_text :: string where
  "layoffs_text = ''ai layoffs hit 2 million workers in 2026 ''"

lemma fold_keywords:
  "fold (\<lambda>keyword (sc, matched).
           if P keyword then (sc + 20, matched @ [keyword]) else (sc, matched)) ks (a::real, m)
    = (a + 20 * real (length (filter P ks)), m @ filter P ks)"
  by (induction ks arbitrary: a m) auto

lemma fold_terms:
  "fold (\<lambda>trm sc. if P trm then sc + c else sc) ts (a::real)
    = a + c * real (length (filter P ts))"
  by (induction ts arbitrary: a) (auto simp: algebra_simps)

lemma layoffs_topic_text:
  "lower (title (layoffs_topic stamp)) @ '' '' @ lower (summary (layoffs_topic stamp))
    = layoffs_text"
proof -
  have "lower ''AI layoffs hit 2 million workers in 2026'' @ '' '' @ lower [] = layoffs_text"
    by code_simp
  then show ?thesis
    by (simp add: layoffs_topic_def)
qed

lemma layoffs_text_keywords:
  "filter (\<lambda>keyword. py_in (lower keyword) layoffs_text) CONTENT_CONFIG_keywords = []"
  by code_simp

lemma layoffs_text_high_value: "filter (\<lambda>trm. py_in trm layoffs_text) high_value = []"
  by code_simp

lemma layoffs_text_viral: "filter (\<lambda>trm. py_in trm layoffs_text) viral_terms = [''million'']"
  by code_simp

lemma layoffs_text_year: "py_in ''2026'' layoffs_text"
  by code_simp

lemma layoffs_topic_score:
  "calculate_score CONTENT_CONFIG_keywords days_old (layoffs_topic stamp) =
     (let sc = (case days_old stamp of
                  None \<Rightarrow> 15
                | Some d \<Rightarrow> if d \<le> 1 then 45 else if d \<le> 3 then 30 else if d \<le> 7 then 20 else 15)
      in (sc, layoffs_topic stamp\<lparr>topic_score := sc\<rparr>))"
proof -
  have src: "\<not> startswith (topic_source (layoffs_topic stamp)) ''reddit''"
    by (simp add: layoffs_topic_def)
  have pub: "published (layoffs_topic stamp) = stamp"
    by (simp add: layoffs_topic_def)
  have upd: "layoffs_topic stamp\<lparr>topic_score := x, keywords_matched := []\<rparr>
      = layoffs_topic stamp\<lparr>topic_score := x\<rparr>" for x
    by (simp add: layoffs_topic_def)
  show ?thesis
    unfolding calculate_score_def Let_def layoffs_topic_text fold_keywords fold_terms
      layoffs_text_keywords layoffs_text_high_value layoffs_text_viral pub
    using layoffs_text_year src by (simp add: upd split: option.splits)
qed

text \<open>
  C4 as stated fails. The text is ``ai layoffs hit 2 million workers in 2026 '': the
  keyword ``ai layoffs 2026'' is not a substring of it, and the high-value list has
  ``mass layoff'', not ``layoff''. Published today, the topic scores 5 (``million'')
  + 10 (``2026'') + 30 (recency) = 45, below 75, and no keyword is matched.
\<close>

theorem layoffs_topic_score_counterexample:
  "fst (calculate_score CONTENT_CONFIG_keywords published_today
          (layoffs_topic ''2026-11-04T08:00:00+00:00'')) = 45
   \<and> keywords_matched (snd (calculate_score CONTENT_CONFIG_keywords published_today
          (layoffs_topic ''2026-11-04T08:00:00+00:00''))) = []
   \<and> \<not> 75 \<le> fst (calculate_score CONTENT_CONFIG_keywords published_today
          (layoffs_topic ''2026-11-04T08:00:00+00:00''))"
  by (simp only: layoffs_topic_score) (simp add: published_today_def layoffs_topic_def)

text \<open>
  C4, amended. For the topic titled ``AI layoffs hit 2 million workers in 2026'' from
  a Google-News-like source with an empty summary, no configured keyword and no
  high-value term matches; the score is 5 for the viral term ``million'' plus 10 for the
  year plus the recency bonus: 45 when the stamp parses and is at most one day old, and
  never more.
\<close>

theorem layoffs_topic_score_is_45:
  "keywords_matched (snd (calculate_score CONTENT_CONFIG_keywords days_old (layoffs_topic stamp))) = []
   \<and> fst (calculate_score CONTENT_CONFIG_keywords days_old (layoffs_topic stamp)) \<le> 45
   \<and> (days_old stamp = Some d \<and> d \<le> 1 \<longrightarrow>
        fst (calculate_score CONTENT_CONFIG_keywords days_old (layoffs_topic stamp)) = 5 + 10 + 30)"
  by (simp only: layoffs_topic_score) (simp add: layoffs_topic_def Let_def split: option.splits)

theorem layoffs_topic_score_is_45_witness:
  "published_today ''2026-11-04T08:00:00+00:00'' = Some 0
   \<and> fst (calculate_score CONTENT_CONFIG_keywords published_today
          (layoffs_topic ''2026-11-04T08:00:00+00:00'')) = 45"
  using layoffs_topic_score_is_45 [of published_today "''2026-11-04T08:00:00+00:00''" 0]
  by (simp add: published_today_def)

section \<open>video\_assembler\<close>

subsection \<open>Clips\<close>

text \<open>
  A MoviePy clip, as far as the assembler uses it: where its frames come from and its
  duration, a double. The operations follow the library's contract: \<open>set_duration\<close> and
  \<open>subclip(0, t)\<close> give a clip of duration \<open>t\<close>; \<open>concatenate_videoclips\<close> fails on an
  empty list and otherwise gives a clip whose duration is the running sum of the
  durations, each addition rounded to a double (\<open>fl\<close> is that rounding, as in
  \<open>estimate_duration\<close>); \<open>CompositeVideoClip\<close> lasts as long as its longest layer, all
  layers starting at 0.
\<close>

datatype footage =
    From_file string
  | Black
  | Caption string
  | Sequence "footage list"
  | Layers "footage list"

record clip =
  footage :: footage
  clip_duration :: real

definition set_duration :: "clip \<Rightarrow> real \<Rightarrow> clip" where
  "set_duration c t = c\<lparr>clip_duration := t\<rparr>"

definition subclip :: "clip \<Rightarrow> real \<Rightarrow> clip" where
  "subclip c t_end = c\<lparr>clip_duration := t_end\<rparr>"

definition concatenate_videoclips :: "(real \<Rightarrow> real) \<Rightarrow> clip list \<Rightarrow> exn + clip" where
  "concatenate_videoclips fl cs =
     (if cs = [] then Inl (ValueError ''no clips to concatenate'')
      else Inr \<lparr>footage = Sequence (map footage cs),
                clip_duration = foldl (\<lambda>t d. fl (t + d)) 0 (map clip_duration cs)\<rparr>)"

definition CompositeVideoClip :: "clip list \<Rightarrow> clip" where
  "CompositeVideoClip cs =
     \<lparr>footage = Layers (map footage cs),
      clip_duration = fold max (map clip_duration cs) 0\<rparr>"

subsection \<open>The world outside the assembler\<close>

text \<open>
  The file system and the media library: whether a path exists (\<open>Path.exists\<close> answers
  for a missing file and raises on other errors, a refused permission or a name that is
  too long); opening a video (its own duration) or an image; resizing; opening the
  narration audio (its duration); rendering the title text; writing the video file;
  extracting the short clips (the paths written); the time stamp of the output file
  name. Each call may raise. The world does not change during a run.
\<close>

record env =
  path_exists :: "string \<Rightarrow> exn + bool"
  VideoFileClip :: "string \<Rightarrow> exn + real"
  ImageClip :: "string \<Rightarrow> exn + unit"
  resize :: "clip \<Rightarrow> exn option"
  AudioFileClip :: "string \<Rightarrow> exn + real"
  TextClip :: "string \<Rightarrow> exn option"
  write_videofile :: "string \<Rightarrow> clip \<Rightarrow> exn option"
  extract_shorts :: "clip \<Rightarrow> string \<Rightarrow> exn + string list"
  now :: string

text \<open>\<open>VIDEO_CONFIG["min_duration"]\<close>.\<close>

definition min_duration :: real where
  "min_duration = 840"

subsection \<open>VideoAssembler.\_load\_visual\<close>

text \<open>
  The body of \<open>_load_visual\<close>. The check of the local file comes first, outside the
  \<open>try\<close>: the body returns \<open>None\<close> when the visual has no local path or the file does not
  exist, and raises what \<open>Path.exists\<close> raises. Inside the \<open>try\<close> it builds the clip at the
  target duration, a video looped when it is too short; whatever raises there is caught
  and the body returns \<open>None\<close>. Its log lines are left out.
\<close>

definition load_visual_body ::
  "(real \<Rightarrow> real) \<Rightarrow> env \<Rightarrow> visual \<Rightarrow> real \<Rightarrow> exn + clip option"
where
  "load_visual_body fl e v target_duration =
     (case local_path v of
        None \<Rightarrow> Inr None
      | Some path \<Rightarrow>
          if path = [] then Inr None
          else
            (case path_exists e path of
               Inl x \<Rightarrow> Inl x
             | Inr False \<Rightarrow> Inr None
             | Inr True \<Rightarrow>
                 (case
                    (if visual_type v = ''video'' then
                       (case VideoFileClip e path of
                          Inl x \<Rightarrow> Inl x
                        | Inr native \<Rightarrow>
                            (let c = \<lparr>footage = From_file path, clip_duration = native\<rparr>
                             in if native < target_duration then
                                  (if native = 0 then Inl ZeroDivisionError
                                   else
                                     (case concatenate_videoclips fl
                                             (replicate
                                                (nat (py_int (fl (target_duration / native)) + 1))
                                                c) of
                                        Inl x \<Rightarrow> Inl x
                                      | Inr looped \<Rightarrow> Inr (subclip looped target_duration)))
                                else Inr (subclip c target_duration)))
                     else
                       (case ImageClip e path of
                          Inl x \<Rightarrow> Inl x
                        | Inr u \<Rightarrow>
                            Inr (set_duration \<lparr>footage = From_file path, clip_duration = 0\<rparr>
                                   target_duration)))
                  of
                    Inl x \<Rightarrow> Inr None
                  | Inr c \<Rightarrow> (case resize e c of Some x \<Rightarrow> Inr None | None \<Rightarrow> Inr (Some c)))))"

text \<open>
  The method as decorated: the retry wrapper runs the body, twice when it raises, and
  with \<open>fallback=None\<close> raises again what the second attempt raised. The world of the
  wrapper is of no interest here.
\<close>

definition load_visual ::
  "(real \<Rightarrow> real) \<Rightarrow> env \<Rightarrow> visual \<Rightarrow> real \<Rightarrow> (unit, exn, clip) run"
where
  "load_visual fl e v target_duration =
     load_visual_decorator (\<lambda>w. (load_visual_body fl e v target_duration, w)) ()"

subsection \<open>AssemblyMetrics\<close>

text \<open>
  The metrics that \<open>finalize\<close> writes to the log directory. Wall-clock stamps and
  timings are left out of the records.
\<close>

datatype detail = Num real | Count int | Str string

record error_record =
  error_type :: string
  message :: string
  recoverable :: bool
  at_step :: nat

record metrics =
  steps :: "(string \<times> (string \<times> detail) list) list"
  errors :: "error_record list"
  quality_signals :: "string \<rightharpoonup> real \<times> real \<times> bool option"
  success :: "bool option"
  step_count :: nat

definition new_metrics :: metrics where
  "new_metrics =
     \<lparr>steps = [], errors = [], quality_signals = Map.empty, success = None, step_count = 0\<rparr>"

definition log_step :: "metrics \<Rightarrow> string \<Rightarrow> (string \<times> detail) list \<Rightarrow> metrics" where
  "log_step m step_name details =
     m\<lparr>step_count := step_count m + 1, steps := steps m @ [(step_name, details)]\<rparr>"

definition log_error :: "metrics \<Rightarrow> string \<Rightarrow> string \<Rightarrow> bool \<Rightarrow> metrics" where
  "log_error m etype msg rec =
     m\<lparr>errors := errors m @
         [\<lparr>error_type = etype, message = msg, recoverable = rec, at_step = step_count m\<rparr>]\<rparr>"

definition log_quality_signal :: "metrics \<Rightarrow> string \<Rightarrow> real \<Rightarrow> real \<Rightarrow> metrics" where
  "log_quality_signal m signal_name val target =
     m\<lparr>quality_signals := (quality_signals m)
         (signal_name \<mapsto> (val, target, if target \<noteq> 0 then Some (val \<ge> target) else None))\<rparr>"

definition finalize :: "metrics \<Rightarrow> bool \<Rightarrow> metrics" where
  "finalize m ok = m\<lparr>success := Some ok\<rparr>"

subsection \<open>VideoAssembler.assemble\<close>

text \<open>\<open>VideoProject\<close>; the fields \<open>id\<close> and \<open>title\<close> are \<open>project_id\<close> and \<open>project_title\<close>.\<close>

record VideoProject =
  project_id :: string
  project_title :: string
  script_text :: string
  visuals :: "visual list"
  audio_path :: "string option"
  output_path :: "string option"
  shorts_paths :: "string list"

text \<open>\<open>str\<close> of an optional path, of an exception and of a number.\<close>

definition str_path :: "string option \<Rightarrow> string" where
  "str_path p = (case p of None \<Rightarrow> ''None'' | Some s \<Rightarrow> s)"

fun str_exn :: "exn \<Rightarrow> string" where
  "str_exn ZeroDivisionError = ''division by zero''"
| "str_exn (ValueError s) = s"
| "str_exn (RuntimeError s) = s"
| "str_exn (OSError s) = s"

function str_nat :: "nat \<Rightarrow> string" where
  "str_nat n =
     (if n < 10 then [char_of (48 + n)] else str_nat (n div 10) @ [char_of (48 + n mod 10)])"
  by pat_completeness auto
termination
  by (relation "measure id") auto

declare str_nat.simps [simp del]

text \<open>
  Step 3, the loop over the visuals with their indices, on
  \<open>(visual_clips, loaded_count, metrics)\<close>: a visual for which \<open>_load_visual\<close> returns
  \<open>None\<close> is replaced by a black placeholder of the segment duration; when
  \<open>_load_visual\<close> raises, the exception ends the loop. The first component is that
  exception, if there was one.
\<close>

fun load_visuals ::
  "(real \<Rightarrow> real) \<Rightarrow> env \<Rightarrow> real \<Rightarrow> visual list \<Rightarrow> nat \<Rightarrow> clip list \<times> nat \<times> metrics
    \<Rightarrow> exn option \<times> clip list \<times> nat \<times> metrics"
where
  "load_visuals fl e segment_duration [] i st = (None, st)"
| "load_visuals fl e segment_duration (v # vs) i (visual_clips, loaded_count, m) =
     (case result (load_visual fl e v segment_duration) of
        Inl x \<Rightarrow> (Some x, visual_clips, loaded_count, m)
      | Inr (Some c) \<Rightarrow>
          load_visuals fl e segment_duration vs (i + 1)
            (visual_clips @ [c], loaded_count + 1, m)
      | Inr None \<Rightarrow>
          load_visuals fl e segment_duration vs (i + 1)
            (visual_clips @ [set_duration \<lparr>footage = Black, clip_duration = 0\<rparr> segment_duration],
             loaded_count,
             log_error m ''visual_load_failed''
               (''Visual '' @ str_nat i @ '' failed, using placeholder'') True))"

text \<open>
  What a call of \<open>assemble\<close> leaves behind: the exception it raised, if any (it returns
  the project otherwise); the project, which it changes in place; the metrics; and the
  files in the output directory.
\<close>

record assembly =
  raised :: "exn option"
  project_after :: VideoProject
  metrics_after :: metrics
  output_files :: "string list"

text \<open>
  Steps 4 to 8 and the final metrics, inside the \<open>try\<close>: the sequence, the optional title
  card, the audio, the render to \<open>output/<id>_<stamp>.mp4\<close> (a render that fails may
  leave its file behind), the optional shorts.
\<close>

definition render ::
  "(real \<Rightarrow> real) \<Rightarrow> env \<Rightarrow> VideoProject \<Rightarrow> bool \<Rightarrow> bool \<Rightarrow> real \<Rightarrow> clip list \<Rightarrow> nat
    \<Rightarrow> metrics \<Rightarrow> string list \<Rightarrow> assembly"
where
  "render fl e project add_captions generate_shorts total_duration visual_clips loaded_count
      m3 out =
     (let num_visuals = length (visuals project);
          m4 = log_step m3 ''load_visuals''
                 [(''total'', Count (int num_visuals)), (''loaded'', Count (int loaded_count)),
                  (''failed'', Count (int num_visuals - int loaded_count))];
          m5 = log_quality_signal m4 ''visuals_loaded_pct''
                 (fl (fl (real loaded_count / real num_visuals) * 100)) 80
      in case concatenate_videoclips fl visual_clips of
           Inl x \<Rightarrow>
             \<lparr>raised = Some x, project_after = project, metrics_after = m5, output_files = out\<rparr>
         | Inr video_sequence \<Rightarrow>
             (let m6 = log_step m5 ''concatenate_visuals''
                         [(''result_duration'', Num (clip_duration video_sequence))]
              in case (if add_captions then TextClip e (project_title project) else None) of
                   Some x \<Rightarrow>
                     \<lparr>raised = Some x, project_after = project, metrics_after = m6,
                      output_files = out\<rparr>
                 | None \<Rightarrow>
                     (let final_video =
                            (if add_captions
                             then CompositeVideoClip
                                    [video_sequence,
                                     \<lparr>footage = Caption (project_title project),
                                      clip_duration = 5\<rparr>]
                             else video_sequence);
                          m7 = (if add_captions
                                then log_step m6 ''add_captions'' [(''title_duration'', Num 5)]
                                else m6);
                          m8 = log_step m7 ''add_audio''
                                 [(''video_duration'', Num (clip_duration final_video)),
                                  (''audio_duration'', Num total_duration)];
                          path = ''output/'' @ project_id project @ ''_'' @ now e @ ''.mp4''
                      in case write_videofile e path final_video of
                           Some x \<Rightarrow>
                             \<lparr>raised = Some x, project_after = project, metrics_after = m8,
                              output_files = out @ [path]\<rparr>
                         | None \<Rightarrow>
                             (let project1 = project\<lparr>output_path := Some path\<rparr>;
                                  m9 = log_step m8 ''render_video'' [(''output_file'', Str path)]
                              in case (if generate_shorts
                                       then extract_shorts e final_video (project_id project)
                                       else Inr (shorts_paths project1)) of
                                   Inl x \<Rightarrow>
                                     \<lparr>raised = Some x, project_after = project1,
                                      metrics_after = m9, output_files = out @ [path]\<rparr>
                                 | Inr shorts \<Rightarrow>
                                     (let m10 = (if generate_shorts
                                                 then log_step m9 ''generate_shorts''
                                                        [(''count'', Count (int (length shorts)))]
                                                 else m9);
                                          m11 = log_quality_signal m10 ''output_duration''
                                                  (clip_duration final_video) min_duration
                                      in \<lparr>raised = None,
                                          project_after = project1\<lparr>shorts_paths := shorts\<rparr>,
                                          metrics_after = finalize m11 True,
                                          output_files =
                                            out @ [path]
                                            @ (if generate_shorts then shorts else [])\<rparr>)))))"

text \<open>Steps 1 to 3 inside the \<open>try\<close>, up to the hand-over to the steps above.\<close>

definition assemble_try ::
  "(real \<Rightarrow> real) \<Rightarrow> env \<Rightarrow> VideoProject \<Rightarrow> bool \<Rightarrow> bool \<Rightarrow> string list \<Rightarrow> assembly"
where
  "assemble_try fl e project add_captions generate_shorts out =
     (case AudioFileClip e (str_path (audio_path project)) of
        Inl x \<Rightarrow>
          \<lparr>raised = Some x, project_after = project, metrics_after = new_metrics,
           output_files = out\<rparr>
      | Inr total_duration \<Rightarrow>
          (let m1 = log_quality_signal
                      (log_step new_metrics ''load_audio''
                         [(''duration'', Num total_duration),
                          (''file'', Str (str_path (audio_path project)))])
                      ''audio_duration'' total_duration min_duration;
               num_visuals = length (visuals project)
           in if num_visuals = 0 then
                \<lparr>raised = Some (ValueError ''No visuals to assemble''), project_after = project,
                 metrics_after = log_error m1 ''no_visuals'' ''No visuals provided'' False,
                 output_files = out\<rparr>
              else
                (let segment_duration = fl (total_duration / real num_visuals);
                     m2 = log_step m1 ''calculate_timing''
                            [(''total_duration'', Num total_duration),
                             (''num_visuals'', Count (int num_visuals)),
                             (''segment_duration'', Num segment_duration)]
                 in case load_visuals fl e segment_duration (visuals project) 0 ([], 0, m2) of
                      (Some x, visual_clips, loaded_count, m3) \<Rightarrow>
                        \<lparr>raised = Some x, project_after = project, metrics_after = m3,
                         output_files = out\<rparr>
                    | (None, visual_clips, loaded_count, m3) \<Rightarrow>
                        render fl e project add_captions generate_shorts total_duration
                          visual_clips loaded_count m3 out)))"

text \<open>
  \<open>assemble\<close>: the \<open>try\<close> and its handler, which logs the failure as not recoverable,
  finalizes the metrics as failed and raises again.
\<close>

definition assemble ::
  "(real \<Rightarrow> real) \<Rightarrow> env \<Rightarrow> VideoProject \<Rightarrow> bool \<Rightarrow> bool \<Rightarrow> string list \<Rightarrow> assembly"
where
  "assemble fl e project add_captions generate_shorts out =
     (let a = assemble_try fl e project add_captions generate_shorts out
      in case raised a of
           None \<Rightarrow> a
         | Some x \<Rightarrow>
             a\<lparr>metrics_after :=
                 finalize (log_error (metrics_after a) ''assembly_failed'' (str_exn x) False)
                   False\<rparr>)"

subsection \<open>Loading the visuals\<close>

lemma load_visual_result: "result (load_visual fl e v t) = load_visual_body fl e v t"
proof (cases "load_visual_body fl e v t")
  case (Inl x)
  let ?f = "(\<lambda>w. (load_visual_body fl e v t, w)) :: (unit, exn, clip) operation"
  have first: "wrapper_loop 2 1 None True ?f 0 () 0 [] []
      = wrapper_loop 2 1 None True ?f (0 + 1) () (Suc 0) ([] @ [1 * 2 ^ nat 0])
          (if True then [] @ [Error_attempt x (0 + 1) 2] else [])"
    by (rule wrapper_loop_retry) (simp_all add: Inl)
  have second: "result (wrapper_loop 2 1 None True ?f (0 + 1) () (Suc 0) ([] @ [1 * 2 ^ nat 0])
          (if True then [] @ [Error_attempt x (0 + 1) 2] else []))
      = (case None of Some f \<Rightarrow> Inr (Some f) | None \<Rightarrow> Inl x)"
    by (rule wrapper_loop_exhausted(1)) (simp_all add: Inl)
  have "result (load_visual fl e v t) = result (wrapper_loop 2 1 None True ?f 0 () 0 [] [])"
    by (simp add: load_visual_def load_visual_decorator_def handle_errors_call_def
        handle_errors_def)
  also have "\<dots> = Inl x"
    by (simp only: first second option.case)
  finally show ?thesis
    by (simp add: Inl)
next
  case (Inr c)
  let ?f = "(\<lambda>w. (load_visual_body fl e v t, w)) :: (unit, exn, clip) operation"
  have "wrapper_loop 2 1 None True ?f 0 () 0 [] []
      = \<lparr>result = Inr c, world = (), calls = Suc 0, sleeps = [],
         logged = (if (0::int) > 0 then [] @ [Info_succeeded (0 + 1)] else [])\<rparr>"
    by (rule wrapper_loop_success) (simp_all add: Inr)
  then show ?thesis
    by (simp add: load_visual_def load_visual_decorator_def handle_errors_call_def
        handle_errors_def Inr)
qed

lemma load_visual_body_duration:
  "load_visual_body fl e v t = Inr (Some c) \<Longrightarrow> clip_duration c = t"
  by (auto simp: load_visual_body_def set_duration_def subclip_def concatenate_videoclips_def
      Let_def split: option.splits if_splits sum.splits bool.splits)

text \<open>
  The clip that fills the slot of a visual whose load does not raise: the loaded clip,
  or the placeholder.
\<close>

definition slot :: "(real \<Rightarrow> real) \<Rightarrow> env \<Rightarrow> real \<Rightarrow> visual \<Rightarrow> clip" where
  "slot fl e segment_duration v =
     (case load_visual_body fl e v segment_duration of
        Inr (Some c) \<Rightarrow> c
      | Inr None \<Rightarrow> set_duration \<lparr>footage = Black, clip_duration = 0\<rparr> segment_duration
      | Inl x \<Rightarrow> set_duration \<lparr>footage = Black, clip_duration = 0\<rparr> segment_duration)"

lemma slot_duration: "clip_duration (slot fl e t v) = t"
  by (auto simp: slot_def set_duration_def split: option.splits sum.splits
      dest: load_visual_body_duration)

text \<open>
  The loop fills the slots of the visuals before the first one whose load raises, and
  ends with that exception; it ends without one when no load raises.
\<close>

lemma load_visuals_run:
  "load_visuals fl e t vs i (cs, k, m) = (x, cs', k', m')
    \<Longrightarrow> cs' = cs @ map (slot fl e t) (takeWhile (\<lambda>v. \<not> isl (load_visual_body fl e v t)) vs)
      \<and> x = (case dropWhile (\<lambda>v. \<not> isl (load_visual_body fl e v t)) vs of
               [] \<Rightarrow> None
             | v # rest \<Rightarrow> Some (projl (load_visual_body fl e v t)))
      \<and> steps m' = steps m"
proof (induction vs arbitrary: i cs k m)
  case Nil
  then show ?case by simp
next
  case (Cons v vs)
  show ?case
  proof (cases "load_visual_body fl e v t")
    case (Inl y)
    then show ?thesis
      using Cons.prems by (simp add: load_visual_result)
  next
    case (Inr r)
    show ?thesis
    proof (cases r)
      case None
      with Inr Cons.prems have "load_visuals fl e t vs (i + 1)
          (cs @ [set_duration \<lparr>footage = Black, clip_duration = 0\<rparr> t], k,
           log_error m ''visual_load_failed''
             (''Visual '' @ str_nat i @ '' failed, using placeholder'') True) = (x, cs', k', m')"
        by (simp add: load_visual_result)
      from Cons.IH [OF this] show ?thesis
        using Inr None by (simp add: slot_def log_error_def)
    next
      case (Some c)
      with Inr Cons.prems
      have "load_visuals fl e t vs (i + 1) (cs @ [c], k + 1, m) = (x, cs', k', m')"
        by (simp add: load_visual_result)
      from Cons.IH [OF this] show ?thesis
        using Inr Some by (simp add: slot_def)
    qed
  qed
qed

lemma load_visuals_slots:
  assumes "load_visuals fl e t vs i (cs, k, m) = (x, cs', k', m')"
    and "\<forall>v\<in>set vs. \<not> isl (load_visual_body fl e v t)"
  shows "x = None \<and> cs' = cs @ map (slot fl e t) vs \<and> steps m' = steps m"
proof -
  have tw: "takeWhile (\<lambda>v. \<not> isl (load_visual_body fl e v t)) vs = vs"
    using assms(2) by simp
  have dw: "dropWhile (\<lambda>v. \<not> isl (load_visual_body fl e v t)) vs = []"
    using assms(2) by simp
  from load_visuals_run [OF assms(1)] show ?thesis
    by (simp only: tw dw list.case)
qed

lemma load_visual_body_no_raise:
  "\<not> isl (path_exists e (the (local_path v))) \<Longrightarrow> \<not> isl (load_visual_body fl e v t)"
  by (auto simp: load_visual_body_def Let_def
      split: option.splits if_splits sum.splits bool.splits)

text \<open>
  When the body raises, the decorated method runs it twice and raises what it raised:
  \<open>fallback=None\<close> gives no value to return.
\<close>

lemma load_visual_raises:
  assumes "load_visual_body fl e v t = Inl x"
  shows "result (load_visual fl e v t) = Inl x" and "calls (load_visual fl e v t) = 2"
proof -
  let ?f = "(\<lambda>w. (load_visual_body fl e v t, w)) :: (unit, exn, clip) operation"
  have first: "wrapper_loop 2 1 None True ?f 0 () 0 [] []
      = wrapper_loop 2 1 None True ?f (0 + 1) () (Suc 0) ([] @ [1 * 2 ^ nat 0])
          (if True then [] @ [Error_attempt x (0 + 1) 2] else [])"
    by (rule wrapper_loop_retry) (simp_all add: assms)
  have second: "calls (wrapper_loop 2 1 None True ?f (0 + 1) () (Suc 0) ([] @ [1 * 2 ^ nat 0])
          (if True then [] @ [Error_attempt x (0 + 1) 2] else [])) = Suc (Suc 0)"
    by (rule wrapper_loop_exhausted(2)) (simp_all add: assms)
  have "calls (load_visual fl e v t) = calls (wrapper_loop 2 1 None True ?f 0 () 0 [] [])"
    by (simp add: load_visual_def load_visual_decorator_def handle_errors_call_def
        handle_errors_def)
  also have "\<dots> = Suc (Suc 0)"
    by (simp only: first second)
  finally show "calls (load_visual fl e v t) = 2"
    by simp
  show "result (load_visual fl e v t) = Inl x"
    by (simp add: load_visual_result assms)
qed

subsection \<open>The recorded duration of the sequence\<close>

text \<open>
  When no load raises, the sequence has one slot for each visual, each of the segment
  duration, and the duration recorded for the concatenated sequence is the running sum
  of as many copies of the segment duration as there are visuals, rounded at each
  addition.
\<close>

lemma concatenate_slots:
  assumes "vs \<noteq> []"
  shows "\<exists>c. concatenate_videoclips fl (map (slot fl e t) vs) = Inr c
    \<and> clip_duration c = foldl (\<lambda>s d. fl (s + d)) 0 (replicate (length vs) t)"
proof -
  have "map clip_duration (map (slot fl e t) vs) = replicate (length vs) t"
    by (induction vs) (simp_all add: slot_duration)
  then show ?thesis
    using assms by (simp add: concatenate_videoclips_def)
qed

text \<open>
  With a rounding of relative error at most \<open>u\<close>, the running sum of \<open>n\<close> copies of the
  rounded \<open>T / n\<close> differs from \<open>T\<close> by a factor between \<open>(1 - u)^(n + 1)\<close> and
  \<open>(1 + u)^(n + 1)\<close>. The rounding of doubles has relative error at most \<open>2^-52\<close>.
\<close>

lemma foldl_replicate_Suc:
  "foldl f a (replicate (Suc n) d) = f (foldl f a (replicate n d)) d"
proof -
  have "replicate (Suc n) d = replicate n d @ [d]"
    by (simp add: replicate_append_same)
  then show ?thesis
    by (simp only: foldl_append foldl.simps)
qed

lemma running_sum_bounds:
  fixes u d :: real
  assumes u: "0 \<le> u" "u \<le> 1"
    and fl: "\<And>x. 0 \<le> x \<Longrightarrow> (1 - u) * x \<le> fl x \<and> fl x \<le> (1 + u) * x"
    and d: "0 \<le> d"
  shows "(1 - u) ^ n * (real n * d) \<le> foldl (\<lambda>s x. fl (s + x)) 0 (replicate n d)
    \<and> foldl (\<lambda>s x. fl (s + x)) 0 (replicate n d) \<le> (1 + u) ^ n * (real n * d)"
proof (induction n)
  case 0
  then show ?case by simp
next
  case (Suc n)
  let ?s = "foldl (\<lambda>s x. fl (s + x)) 0 (replicate n d)"
  have lo: "(1 - u) ^ n * (real n * d) \<le> ?s" and hi: "?s \<le> (1 + u) ^ n * (real n * d)"
    using Suc.IH by blast+
  have p0: "0 \<le> (1 - u) ^ n" and p1: "(1 - u) ^ n \<le> 1"
    using u by (simp_all add: power_le_one)
  have q1: "1 \<le> (1 + u) ^ n"
    using u by (simp add: one_le_power)
  have "0 \<le> (1 - u) ^ n * (real n * d)"
    using p0 d by simp
  then have s0: "0 \<le> ?s + d"
    using lo d by linarith
  have step: "foldl (\<lambda>s x. fl (s + x)) 0 (replicate (Suc n) d) = fl (?s + d)"
    by (rule foldl_replicate_Suc)
  have "(1 - u) ^ n * d \<le> 1 * d"
    using p1 d by (rule mult_right_mono)
  then have "(1 - u) ^ n * (real (Suc n) * d) \<le> ?s + d"
    using lo by (simp add: algebra_simps)
  then have "(1 - u) * ((1 - u) ^ n * (real (Suc n) * d)) \<le> (1 - u) * (?s + d)"
    using u by (simp add: mult_left_mono)
  also have "\<dots> \<le> fl (?s + d)"
    using fl [OF s0] by blast
  finally have low: "(1 - u) ^ Suc n * (real (Suc n) * d) \<le> fl (?s + d)"
    by (simp add: mult.assoc)
  have "1 * d \<le> (1 + u) ^ n * d"
    using q1 d by (rule mult_right_mono)
  then have "?s + d \<le> (1 + u) ^ n * (real (Suc n) * d)"
    using hi by (simp add: algebra_simps)
  then have "(1 + u) * (?s + d) \<le> (1 + u) * ((1 + u) ^ n * (real (Suc n) * d))"
    using u by (simp add: mult_left_mono)
  with fl [OF s0] have "fl (?s + d) \<le> (1 + u) * ((1 + u) ^ n * (real (Suc n) * d))"
    by linarith
  then have high: "fl (?s + d) \<le> (1 + u) ^ Suc n * (real (Suc n) * d)"
    by (simp add: mult.assoc)
  show ?case
    using low high by (simp only: step) 
qed

lemma slots_fill_narration:
  fixes u T :: real
  assumes u: "0 \<le> u" "u \<le> 1"
    and fl: "\<And>x. 0 \<le> x \<Longrightarrow> (1 - u) * x \<le> fl x \<and> fl x \<le> (1 + u) * x"
    and T: "0 \<le> T" and n: "0 < n"
  shows "(1 - u) ^ Suc n * T \<le> foldl (\<lambda>s x. fl (s + x)) 0 (replicate n (fl (T / real n)))"
    and "foldl (\<lambda>s x. fl (s + x)) 0 (replicate n (fl (T / real n))) \<le> (1 + u) ^ Suc n * T"
proof -
  let ?d = "fl (T / real n)"
  have q: "0 \<le> T / real n"
    using T by simp
  have dl: "(1 - u) * (T / real n) \<le> ?d" and dh: "?d \<le> (1 + u) * (T / real n)"
    using fl [OF q] by blast+
  have "0 \<le> (1 - u) * (T / real n)"
    using u q by (intro mult_nonneg_nonneg) simp_all
  then have d0: "0 \<le> ?d"
    using dl by linarith
  have nn: "real n * (T / real n) = T"
    using n by simp
  have e1: "real n * ((1 - u) * (T / real n)) = (1 - u) * T"
    and e2: "real n * ((1 + u) * (T / real n)) = (1 + u) * T"
    using nn by (metis mult.left_commute)+
  have "real n * ((1 - u) * (T / real n)) \<le> real n * ?d"
    by (rule mult_left_mono [OF dl]) simp
  then have l1: "(1 - u) * T \<le> real n * ?d"
    by (simp only: e1)
  have "real n * ?d \<le> real n * ((1 + u) * (T / real n))"
    by (rule mult_left_mono [OF dh]) simp
  then have h1: "real n * ?d \<le> (1 + u) * T"
    by (simp only: e2)
  have p0: "0 \<le> (1 - u) ^ n" and q0: "0 \<le> (1 + u) ^ n"
    using u by simp_all
  have "(1 - u) ^ n * ((1 - u) * T) \<le> (1 - u) ^ n * (real n * ?d)"
    using l1 p0 by (rule mult_left_mono)
  with running_sum_bounds [OF u fl d0, of n]
  show "(1 - u) ^ Suc n * T \<le> foldl (\<lambda>s x. fl (s + x)) 0 (replicate n ?d)"
    by (simp add: mult.assoc mult.left_commute)
  have "(1 + u) ^ n * (real n * ?d) \<le> (1 + u) ^ n * ((1 + u) * T)"
    using h1 q0 by (rule mult_left_mono)
  with running_sum_bounds [OF u fl d0, of n]
  show "foldl (\<lambda>s x. fl (s + x)) 0 (replicate n ?d) \<le> (1 + u) ^ Suc n * T"
    by (simp add: mult.assoc mult.left_commute)
qed

lemma round_double_error:
  assumes "0 \<le> x"
  shows "(1 - 1 / of_int two52) * x \<le> round_double x
    \<and> round_double x \<le> (1 + 1 / of_int two52) * x"
proof (cases "x = 0")
  case True
  then show ?thesis
    by (simp add: round_double_def)
next
  case False
  then have pos: "0 < x"
    using assms by simp
  let ?y = "x / ulp x"
  let ?r = "round_half_even ?y"
  have "ulp x \<noteq> 0"
    using ulp_pos [of x] by linarith
  then have y: "?y * ulp x = x"
    by simp
  have "of_int \<lfloor>?y\<rfloor> \<le> (of_int ?r :: real)" and "(of_int ?r :: real) \<le> of_int (\<lfloor>?y\<rfloor> + 1)"
    using round_half_even_bounds [of ?y] by (simp_all only: of_int_le_iff)
  then have "?y - 1 \<le> of_int ?r" and "of_int ?r \<le> ?y + 1"
    by linarith+
  then have "(?y - 1) * ulp x \<le> of_int ?r * ulp x" and "of_int ?r * ulp x \<le> (?y + 1) * ulp x"
    using ulp_pos [of x] by (simp_all only: mult_le_cancel_right_pos)
  then have near: "x - ulp x \<le> round_pos x" "round_pos x \<le> x + ulp x"
    using y by (simp_all add: round_pos_def algebra_simps)
  have t: "(0::real) < of_int two52"
    by simp
  have "ulp x * of_int two52 \<le> x"
    using binade(1) [OF pos] by (simp only: ulp_binade [OF pos])
  then have "ulp x \<le> x / of_int two52"
    using t by (simp add: pos_le_divide_eq)
  then have "ulp x \<le> 1 / of_int two52 * x"
    by simp
  then show ?thesis
    using near pos by (simp add: round_double_def algebra_simps)
qed

lemma double_slots_fill_narration:
  assumes "0 \<le> T" and "0 < n"
  shows "(1 - 1 / of_int two52) ^ Suc n * T
      \<le> foldl (\<lambda>s x. round_double (s + x)) 0 (replicate n (round_double (T / real n)))"
    and "foldl (\<lambda>s x. round_double (s + x)) 0 (replicate n (round_double (T / real n)))
      \<le> (1 + 1 / of_int two52) ^ Suc n * T"
proof -
  have u: "(0::real) \<le> 1 / of_int two52" "1 / of_int two52 \<le> (1::real)"
    by (simp_all add: two52_def)
  show "(1 - 1 / of_int two52) ^ Suc n * T
      \<le> foldl (\<lambda>s x. round_double (s + x)) 0 (replicate n (round_double (T / real n)))"
    using u round_double_error assms by (rule slots_fill_narration(1))
  show "foldl (\<lambda>s x. round_double (s + x)) 0 (replicate n (round_double (T / real n)))
      \<le> (1 + 1 / of_int two52) ^ Suc n * T"
    using u round_double_error assms by (rule slots_fill_narration(2))
qed

subsection \<open>The steps recorded by a run\<close>

lemma assemble_steps:
  "steps (metrics_after (assemble fl e project add_captions generate_shorts out))
    = steps (metrics_after (assemble_try fl e project add_captions generate_shorts out))"
  by (simp add: assemble_def Let_def finalize_def log_error_def split: option.splits)

lemma render_steps:
  assumes "concatenate_videoclips fl visual_clips = Inr video_sequence"
  shows "(''concatenate_visuals'', [(''result_duration'', Num (clip_duration video_sequence))])
      \<in> set (steps (metrics_after
        (render fl e project add_captions generate_shorts total_duration visual_clips
          loaded_count m3 out)))"
  using assms
  by (auto simp: render_def Let_def log_step_def log_quality_signal_def finalize_def
      split: option.splits sum.splits)

text \<open>
  A run on narration audio of duration \<open>T\<close> in which no load raises records for the
  concatenated sequence a duration that differs from \<open>T\<close> by no more than these factors.
\<close>

lemma recorded_duration_within_tolerance:
  fixes u T :: real
  assumes vs: "visuals project \<noteq> []"
    and audio: "AudioFileClip e (str_path (audio_path project)) = Inr T"
    and T: "0 \<le> T"
    and loads: "\<forall>v\<in>set (visuals project).
      \<not> isl (load_visual_body fl e v (fl (T / real (length (visuals project)))))"
    and u: "0 \<le> u" "u \<le> 1"
    and fl: "\<And>x. 0 \<le> x \<Longrightarrow> (1 - u) * x \<le> fl x \<and> fl x \<le> (1 + u) * x"
  shows "\<exists>d. (''concatenate_visuals'', [(''result_duration'', Num d)])
        \<in> set (steps (metrics_after (assemble fl e project add_captions generate_shorts out)))
      \<and> (1 - u) ^ Suc (length (visuals project)) * T \<le> d
      \<and> d \<le> (1 + u) ^ Suc (length (visuals project)) * T"
proof -
  define n where "n = length (visuals project)"
  define seg where "seg = fl (T / real n)"
  have n: "0 < n"
    using vs by (simp add: n_def)
  define m1 where "m1 = log_quality_signal
      (log_step new_metrics ''load_audio''
         [(''duration'', Num T), (''file'', Str (str_path (audio_path project)))])
      ''audio_duration'' T min_duration"
  define m2 where "m2 = log_step m1 ''calculate_timing''
      [(''total_duration'', Num T), (''num_visuals'', Count (int n)),
       (''segment_duration'', Num seg)]"
  obtain x cs k m3 where
    run: "load_visuals fl e seg (visuals project) 0 ([], 0, m2) = (x, cs, k, m3)"
    using prod_cases4 by blast
  have "\<forall>v\<in>set (visuals project). \<not> isl (load_visual_body fl e v seg)"
    using loads by (simp only: seg_def n_def)
  from load_visuals_slots [OF run this]
  have x: "x = None" and cs: "cs = map (slot fl e seg) (visuals project)"
    by simp_all
  have body: "assemble_try fl e project add_captions generate_shorts out
      = render fl e project add_captions generate_shorts T cs k m3 out"
    using n run x
    by (simp add: assemble_try_def audio Let_def n_def [symmetric] seg_def [symmetric]
        m1_def [symmetric] m2_def [symmetric])
  obtain c where cat: "concatenate_videoclips fl cs = Inr c"
    and dur: "clip_duration c = foldl (\<lambda>s d. fl (s + d)) 0 (replicate n seg)"
    using concatenate_slots [OF vs, of fl e seg] by (auto simp: cs n_def)
  have "(''concatenate_visuals'', [(''result_duration'', Num (clip_duration c))])
      \<in> set (steps (metrics_after (assemble fl e project add_captions generate_shorts out)))"
    using render_steps [OF cat, of e project add_captions generate_shorts T k m3 out]
    by (simp only: assemble_steps body)
  moreover have "(1 - u) ^ Suc n * T \<le> clip_duration c"
    unfolding dur seg_def using u fl T n by (rule slots_fill_narration(1))
  moreover have "clip_duration c \<le> (1 + u) ^ Suc n * T"
    unfolding dur seg_def using u fl T n by (rule slots_fill_narration(2))
  ultimately show ?thesis
    unfolding n_def by blast
qed

text \<open>A studio in which everything works, and a project with three visuals.\<close>

definition studio :: env where
  "studio =
     \<lparr>path_exists = (\<lambda>p. Inr (p \<noteq> ''temp/visuals/missing.jpg'')),
      VideoFileClip = (\<lambda>p. Inr 45),
      ImageClip = (\<lambda>p. Inr ()),
      resize = (\<lambda>c. None),
      AudioFileClip = (\<lambda>p. Inr 600),
      TextClip = (\<lambda>t. None),
      write_videofile = (\<lambda>p c. None),
      extract_shorts = (\<lambda>c i. Inr []),
      now = ''20261104_080000''\<rparr>"

definition demo_project :: VideoProject where
  "demo_project =
     \<lparr>project_id = ''p1'', project_title = ''AI layoffs'', script_text = ''according to'',
      visuals =
        [stock_visual\<lparr>local_path := Some ''temp/visuals/pexels_1.jpg''\<rparr>,
         stock_visual\<lparr>local_path := Some ''temp/visuals/missing.jpg''\<rparr>,
         stock_visual\<lparr>visual_type := ''video'', local_path := Some ''temp/visuals/clip.mp4''\<rparr>],
      audio_path = Some ''temp/audio/voiceover.mp3'', output_path = None, shorts_paths = []\<rparr>"

text \<open>
  In the studio the run of the demo project renders its output file: the visual whose
  file is missing gets a placeholder.
\<close>

lemma demo_project_renders:
  "raised (assemble fl studio demo_project False False []) = None
   \<and> output_files (assemble fl studio demo_project False False [])
     = [''output/p1_20261104_080000.mp4'']"
proof -
  obtain x cs k m where
    run: "load_visuals fl studio (fl (600 / real (length (visuals demo_project))))
        (visuals demo_project) 0
        ([], 0, log_step
          (log_quality_signal
            (log_step new_metrics ''load_audio''
              [(''duration'', Num 600), (''file'', Str (str_path (audio_path demo_project)))])
            ''audio_duration'' 600 min_duration)
          ''calculate_timing''
          [(''total_duration'', Num 600),
           (''num_visuals'', Count (int (length (visuals demo_project)))),
           (''segment_duration'', Num (fl (600 / real (length (visuals demo_project)))))])
      = (x, cs, k, m)"
    using prod_cases4 by blast
  have "\<not> isl (load_visual_body fl studio v t)" for v t
    by (rule load_visual_body_no_raise) (simp add: studio_def)
  then have "\<forall>v\<in>set (visuals demo_project).
      \<not> isl (load_visual_body fl studio v (fl (600 / real (length (visuals demo_project)))))"
    by simp
  from load_visuals_slots [OF run this] have x: "x = None" and cs: "cs \<noteq> []"
    by (simp_all add: demo_project_def)
  have a: "AudioFileClip studio (str_path (audio_path demo_project)) = Inr 600"
    by (simp add: studio_def)
  have v: "length (visuals demo_project) \<noteq> 0"
    by (simp add: demo_project_def)
  have ext: "write_videofile studio p c = None" "now studio = ''20261104_080000''"
    "project_id demo_project = ''p1''" for p c
    by (simp_all add: studio_def demo_project_def)
  have "assemble_try fl studio demo_project False False []
      = render fl studio demo_project False False 600 cs k m []"
    using v by (simp add: assemble_try_def a Let_def run x)
  moreover have "raised (render fl studio demo_project False False 600 cs k m []) = None
      \<and> output_files (render fl studio demo_project False False 600 cs k m [])
        = [''output/p1_20261104_080000.mp4'']"
    using cs by (simp add: render_def Let_def concatenate_videoclips_def ext)
  ultimately show ?thesis
    by (simp add: assemble_def Let_def)
qed

text \<open>
  C6. When the assembler is invoked with zero visuals the call raises, the metrics are
  finalized as failed and hold an error that is not recoverable, no render step is
  recorded, the output directory holds the files it held before, and the project is
  unchanged. When the narration audio loads, the exception is the \<open>ValueError\<close> for the
  missing visuals, logged as \<open>no_visuals\<close> and again by the handler as
  \<open>assembly_failed\<close>, both not recoverable.
\<close>

theorem assemble_without_visuals_fails:
  assumes "visuals project = []"
  shows "raised (assemble fl e project add_captions generate_shorts out) \<noteq> None
    \<and> success (metrics_after (assemble fl e project add_captions generate_shorts out)) = Some False
    \<and> list_ex (\<lambda>r. \<not> recoverable r)
        (errors (metrics_after (assemble fl e project add_captions generate_shorts out)))
    \<and> \<not> list_ex (\<lambda>s. fst s = ''render_video'')
        (steps (metrics_after (assemble fl e project add_captions generate_shorts out)))
    \<and> output_files (assemble fl e project add_captions generate_shorts out) = out
    \<and> project_after (assemble fl e project add_captions generate_shorts out) = project
    \<and> (AudioFileClip e (str_path (audio_path project)) = Inr T \<longrightarrow>
        raised (assemble fl e project add_captions generate_shorts out)
          = Some (ValueError ''No visuals to assemble'')
        \<and> map error_type
            (errors (metrics_after (assemble fl e project add_captions generate_shorts out)))
          = [''no_visuals'', ''assembly_failed'']
        \<and> map recoverable
            (errors (metrics_after (assemble fl e project add_captions generate_shorts out)))
          = [False, False])"
proof (cases "AudioFileClip e (str_path (audio_path project))")
  case (Inl x)
  then have "assemble_try fl e project add_captions generate_shorts out
      = \<lparr>raised = Some x, project_after = project, metrics_after = new_metrics,
         output_files = out\<rparr>"
    by (simp add: assemble_try_def)
  then show ?thesis
    using Inl
    by (simp add: assemble_def Let_def finalize_def log_error_def new_metrics_def)
next
  case (Inr total_duration)
  then have "assemble_try fl e project add_captions generate_shorts out
      = \<lparr>raised = Some (ValueError ''No visuals to assemble''), project_after = project,
         metrics_after = log_error
           (log_quality_signal
             (log_step new_metrics ''load_audio''
               [(''duration'', Num total_duration),
                (''file'', Str (str_path (audio_path project)))])
             ''audio_duration'' total_duration min_duration)
           ''no_visuals'' ''No visuals provided'' False,
         output_files = out\<rparr>"
    using assms by (simp add: assemble_try_def Let_def)
  then show ?thesis
    using Inr
    by (simp add: assemble_def Let_def finalize_def log_error_def log_step_def
        log_quality_signal_def new_metrics_def)
qed

theorem assemble_without_visuals_fails_witness:
  "visuals (demo_project\<lparr>visuals := []\<rparr>) = []
   \<and> raised (assemble round_double studio (demo_project\<lparr>visuals := []\<rparr>) True True
       [''output/old.mp4''])
     = Some (ValueError ''No visuals to assemble'')
   \<and> success (metrics_after
       (assemble round_double studio (demo_project\<lparr>visuals := []\<rparr>) True True
         [''output/old.mp4'']))
     = Some False
   \<and> output_files (assemble round_double studio (demo_project\<lparr>visuals := []\<rparr>) True True
       [''output/old.mp4''])
     = [''output/old.mp4'']"
proof -
  have v: "visuals (demo_project\<lparr>visuals := []\<rparr>) = []"
    by simp
  have a: "AudioFileClip studio (str_path (audio_path (demo_project\<lparr>visuals := []\<rparr>))) = Inr 600"
    by (simp add: studio_def)
  show ?thesis
    using assemble_without_visuals_fails
      [OF v, of round_double studio True True "[''output/old.mp4'']" 600] a
    by simp
qed

subsection \<open>A visual whose file cannot be examined\<close>

text \<open>
  A studio in which the file of one visual lies under a directory that the process may
  not search, so that \<open>Path.exists\<close> raises \<open>PermissionError\<close> (an \<open>OSError\<close>) for it, and
  a project whose second visual of three has that path.
\<close>

definition locked_studio :: env where
  "locked_studio =
     studio\<lparr>path_exists :=
       (\<lambda>p. if p = ''/proc/1/root/x.jpg'' then Inl (OSError ''[Errno 13] Permission denied'')
            else Inr True)\<rparr>"

definition locked_project :: VideoProject where
  "locked_project =
     demo_project\<lparr>visuals :=
       [stock_visual\<lparr>local_path := Some ''temp/visuals/pexels_1.jpg''\<rparr>,
        stock_visual\<lparr>local_path := Some ''/proc/1/root/x.jpg''\<rparr>,
        stock_visual\<lparr>visual_type := ''video'', local_path := Some ''temp/visuals/clip.mp4''\<rparr>]\<rparr>"

lemma locked_first_visual:
  "load_visual_body fl locked_studio
      (stock_visual\<lparr>local_path := Some ''temp/visuals/pexels_1.jpg''\<rparr>) t
    = Inr (Some \<lparr>footage = From_file ''temp/visuals/pexels_1.jpg'', clip_duration = t\<rparr>)"
  by (simp add: load_visual_body_def locked_studio_def studio_def stock_visual_def
      set_duration_def)

lemma locked_second_visual:
  "load_visual_body fl locked_studio (stock_visual\<lparr>local_path := Some ''/proc/1/root/x.jpg''\<rparr>) t
    = Inl (OSError ''[Errno 13] Permission denied'')"
  by (simp add: load_visual_body_def locked_studio_def studio_def)

lemma locked_load_visuals:
  "load_visuals fl locked_studio t (visuals locked_project) 0 ([], 0, m)
    = (Some (OSError ''[Errno 13] Permission denied''),
       [\<lparr>footage = From_file ''temp/visuals/pexels_1.jpg'', clip_duration = t\<rparr>], 1, m)"
  by (simp add: locked_project_def load_visual_result locked_first_visual locked_second_visual)

text \<open>
  C3. The run of the project with three visuals whose second one has a file that cannot
  be examined, on narration audio of 600 seconds: the decorated \<open>_load_visual\<close> runs its
  body twice for that visual and raises the \<open>OSError\<close>; the loop over the visuals ends
  there with one slot, the slot of the first visual, and no placeholder is made for the
  second; \<open>assemble\<close> raises the \<open>OSError\<close>, its metrics are finalized as failed with the
  one error \<open>assembly_failed\<close>, the steps recorded are the audio and the timing, and the
  output directory holds the files it held before.
\<close>

theorem unreadable_visual_aborts_assembly:
  "length (visuals locked_project) = 3
   \<and> AudioFileClip locked_studio (str_path (audio_path locked_project)) = Inr 600
   \<and> result (load_visual fl locked_studio (visuals locked_project ! 1) t)
     = Inl (OSError ''[Errno 13] Permission denied'')
   \<and> calls (load_visual fl locked_studio (visuals locked_project ! 1) t) = 2
   \<and> load_visuals fl locked_studio t (visuals locked_project) 0 ([], 0, m)
     = (Some (OSError ''[Errno 13] Permission denied''),
        [\<lparr>footage = From_file ''temp/visuals/pexels_1.jpg'', clip_duration = t\<rparr>], 1, m)
   \<and> raised (assemble fl locked_studio locked_project add_captions generate_shorts out)
     = Some (OSError ''[Errno 13] Permission denied'')
   \<and> success (metrics_after
       (assemble fl locked_studio locked_project add_captions generate_shorts out))
     = Some False
   \<and> map error_type (errors (metrics_after
       (assemble fl locked_studio locked_project add_captions generate_shorts out)))
     = [''assembly_failed'']
   \<and> map fst (steps (metrics_after
       (assemble fl locked_studio locked_project add_captions generate_shorts out)))
     = [''load_audio'', ''calculate_timing'']
   \<and> output_files (assemble fl locked_studio locked_project add_captions generate_shorts out)
     = out"
proof -
  have n: "length (visuals locked_project) = 3"
    by (simp add: locked_project_def)
  have a: "AudioFileClip locked_studio (str_path (audio_path locked_project)) = Inr 600"
    by (simp add: locked_studio_def studio_def)
  have second: "visuals locked_project ! 1
      = stock_visual\<lparr>local_path := Some ''/proc/1/root/x.jpg''\<rparr>"
    by (simp add: locked_project_def)
  have r: "result (load_visual fl locked_studio (visuals locked_project ! 1) t)
      = Inl (OSError ''[Errno 13] Permission denied'')"
    unfolding second by (rule load_visual_raises(1)) (rule locked_second_visual)
  have c: "calls (load_visual fl locked_studio (visuals locked_project ! 1) t) = 2"
    unfolding second by (rule load_visual_raises(2)) (rule locked_second_visual)
  have body: "assemble_try fl locked_studio locked_project add_captions generate_shorts out
      = \<lparr>raised = Some (OSError ''[Errno 13] Permission denied''),
         project_after = locked_project,
         metrics_after =
           log_step
             (log_quality_signal
               (log_step new_metrics ''load_audio''
                 [(''duration'', Num 600),
                  (''file'', Str (str_path (audio_path locked_project)))])
               ''audio_duration'' 600 min_duration)
             ''calculate_timing''
             [(''total_duration'', Num 600),
              (''num_visuals'', Count (int (length (visuals locked_project)))),
              (''segment_duration'', Num (fl (600 / real (length (visuals locked_project)))))],
         output_files = out\<rparr>"
    by (simp add: assemble_try_def a n Let_def locked_load_visuals)
  have run: "raised (assemble fl locked_studio locked_project add_captions generate_shorts out)
      = Some (OSError ''[Errno 13] Permission denied'')
    \<and> success (metrics_after
        (assemble fl locked_studio locked_project add_captions generate_shorts out))
      = Some False
    \<and> map error_type (errors (metrics_after
        (assemble fl locked_studio locked_project add_captions generate_shorts out)))
      = [''assembly_failed'']
    \<and> map fst (steps (metrics_after
        (assemble fl locked_studio locked_project add_captions generate_shorts out)))
      = [''load_audio'', ''calculate_timing'']
    \<and> output_files (assemble fl locked_studio locked_project add_captions generate_shorts out)
      = out"
    by (simp add: assemble_def body Let_def finalize_def log_error_def log_step_def
        log_quality_signal_def new_metrics_def)
  show ?thesis
    using n a r c locked_load_visuals [of fl t m] run by blast
qed

end
